theory Spec2Isabelle
  imports Complex_Main "HOL-Library.AList"
begin

section \<open>Shared data: dictionaries, exceptions, log records\<close>

text \<open>
  A Python \<^verbatim>\<open>dict\<close> is an association list with distinct keys in insertion order.
  \<^verbatim>\<open>k in d\<close> is \<open>has_key d k\<close>, \<^verbatim>\<open>d[k]\<close> is \<open>map_of d k\<close>, \<^verbatim>\<open>d[k] = v\<close> is
  \<open>AList.update k v d\<close> (an existing key keeps its place, a new one goes last),
  \<^verbatim>\<open>del d[k]\<close> is \<open>AList.delete k d\<close> and \<^verbatim>\<open>d.update(e)\<close> is \<open>dict_update d e\<close>.
  Values of type \<^verbatim>\<open>Any\<close> are a type parameter \<open>'v\<close>; Python's \<^verbatim>\<open>!=\<close> on them is
  HOL's disequality.
\<close>

type_synonym ('k, 'v) dict = "('k \<times> 'v) list"

definition has_key :: "('k, 'v) dict \<Rightarrow> 'k \<Rightarrow> bool" where
  "has_key d k = (case map_of d k of None \<Rightarrow> False | Some v \<Rightarrow> True)"

definition dict_update :: "('k, 'v) dict \<Rightarrow> ('k, 'v) dict \<Rightarrow> ('k, 'v) dict" where
  "dict_update d e = fold (\<lambda>(k, v) acc. AList.update k v acc) e d"

text \<open>
  Every \<^verbatim>\<open>raise\<close> of the orchestrator is a \<^verbatim>\<open>ValueError\<close> with a message; one
  constructor per raise site stands for the message, its argument for the interpolated
  identifier. \<open>Raised msg\<close> is any exception that the code of an agent class raises,
  \<open>msg\<close> being its \<^verbatim>\<open>str(e)\<close>. \<open>KeyError\<close> is a failed dictionary read.
  \<open>AttributeError ty attr\<close> is Python's error for an attribute \<open>attr\<close> that an object
  of type \<open>ty\<close> does not have. \<open>CancelledError\<close> is what awaiting a cancelled
  \<^verbatim>\<open>asyncio.Task\<close> raises; it is not an \<^verbatim>\<open>Exception\<close>, so \<^verbatim>\<open>except Exception\<close> lets
  it pass. The last three are raised by the graph library: \<open>GraphHasNoEntrypoint\<close> (a
  \<^verbatim>\<open>ValueError\<close>) when a graph without entry point is compiled,
  \<open>InvalidUpdateError\<close> when two nodes write one channel in the same round, and
  \<open>GraphRecursionError\<close> when the bound on the number of rounds is exceeded.
\<close>

datatype exception =
    UnknownAgentType string
  | AgentIdExists string
  | WorkflowIdExists string
  | WorkflowNotFound string
  | WorkflowRunning string
  | KeyError string
  | Raised string
  | AttributeError string string
  | CancelledError
  | GraphHasNoEntrypoint
  | InvalidUpdateError
  | GraphRecursionError

datatype level = INFO | WARNING | ERROR

text \<open>A log record: the level, the message (in English) and the identifier it carries.\<close>

type_synonym log_entry = "level \<times> string \<times> string"

type_synonym time = nat

section \<open>base\_agent.py\<close>

datatype agent_status = IDLE | RUNNING | COMPLETED | FAILED | PAUSED

datatype agent_capability = PERCEPTION | PLANNING | TOOL_USE | KNOWLEDGE | MEMORY | COMMUNICATION

text \<open>
  \<^verbatim>\<open>AgentTask\<close>. The field \<^verbatim>\<open>created_at\<close> (a clock reading no code path reads back)
  is left out; \<^verbatim>\<open>id\<close>, \<^verbatim>\<open>type\<close>, \<^verbatim>\<open>status\<close>, \<^verbatim>\<open>result\<close> and \<^verbatim>\<open>error\<close> carry the prefix
  \<open>task_\<close>.
\<close>

record 'v agent_task =
  task_id :: string
  task_type :: string
  priority :: int
  payload :: "(string, 'v) dict"
  deadline :: "time option"
  dependencies :: "string list"
  task_status :: agent_status
  task_result :: "(string, 'v) dict option"
  task_error :: "exception option"

text \<open>The constructor call \<^verbatim>\<open>AgentTask(id=..., type=..., payload=...)\<close> with the defaults.\<close>

definition AgentTask :: "string \<Rightarrow> string \<Rightarrow> (string, 'v) dict \<Rightarrow> 'v agent_task" where
  "AgentTask i ty p =
     \<lparr>task_id = i, task_type = ty, priority = 1, payload = p, deadline = None,
      dependencies = [], task_status = IDLE, task_result = None, task_error = None\<rparr>"

text \<open>\<^verbatim>\<open>AgentMemory\<close>; messages are values of \<open>'v\<close> too.\<close>

record 'v agent_memory =
  short_term :: "'v list"
  long_term :: "(string, 'v) dict"
  episodic :: "(string, 'v) dict list"
  semantic :: "(string, 'v) dict"

text \<open>The metrics dictionary of \<^verbatim>\<open>BaseAgent.__init__\<close>; Python floats are reals here.\<close>

record agent_metrics =
  tasks_completed :: int
  tasks_failed :: int
  total_execution_time :: real
  average_execution_time :: real
  success_rate :: real

definition initial_metrics :: agent_metrics where
  "initial_metrics =
     \<lparr>tasks_completed = 0, tasks_failed = 0, total_execution_time = 0,
      average_execution_time = 0, success_rate = 0\<rparr>"

text \<open>
  What a concrete agent class supplies for the three abstract methods. \<open>initialize\<close> and
  \<open>cleanup\<close> return normally (\<open>None\<close>) or raise. \<open>process_task\<close>, the agent's
  capability, returns a result dictionary or raises; its outcome may depend on the task
  and on the tasks the agent's capability has been invoked with before (so a capability
  may fail on one attempt and succeed on the next). What a method raises is an
  \<^verbatim>\<open>Exception\<close>; \<open>CancelledError\<close>, which arises only where a cancelled task is
  awaited, is not among its outcomes. As in the two agent classes of the repository
  \<open>process_task\<close> does not write the fields of \<^verbatim>\<open>BaseAgent\<close>.
\<close>

record 'v agent_class =
  initialize :: "exception option"
  process_task :: "'v agent_task list \<Rightarrow> 'v agent_task \<Rightarrow> exception + (string, 'v) dict"
  cleanup :: "exception option"

text \<open>
  \<^verbatim>\<open>BaseAgent\<close> with its \<^verbatim>\<open>AgentState\<close>: \<^verbatim>\<open>name\<close>, \<^verbatim>\<open>status\<close>, \<^verbatim>\<open>context\<close>,
  \<^verbatim>\<open>created_at\<close> carry the prefix \<open>agent_\<close>. \<open>invocations\<close> is a ghost field: the tasks
  that \<open>process_task\<close> has been called with on this agent, oldest first. \<open>agent_log\<close>
  is what the agent has written to its logger.
\<close>

record 'v agent =
  agent_id :: string
  agent_name :: string
  agent_status :: agent_status
  capabilities :: "agent_capability list"
  current_task :: "'v agent_task option"
  task_queue :: "'v agent_task list"
  memory :: "'v agent_memory"
  agent_context :: "(string, 'v) dict"
  metrics :: agent_metrics
  agent_created_at :: time
  last_active :: time
  config :: "(string, 'v) dict"
  is_running :: bool
  cls :: "'v agent_class"
  invocations :: "'v agent_task list"
  agent_log :: "log_entry list"

definition agent_info :: "string \<Rightarrow> 'v agent \<Rightarrow> 'v agent" where
  "agent_info msg a = a\<lparr>agent_log := agent_log a @ [(INFO, msg, agent_id a)]\<rparr>"

definition agent_warning :: "string \<Rightarrow> 'v agent \<Rightarrow> 'v agent" where
  "agent_warning msg a = a\<lparr>agent_log := agent_log a @ [(WARNING, msg, agent_id a)]\<rparr>"

definition agent_error :: "string \<Rightarrow> 'v agent \<Rightarrow> 'v agent" where
  "agent_error msg a = a\<lparr>agent_log := agent_log a @ [(ERROR, msg, agent_id a)]\<rparr>"

text \<open>\<^verbatim>\<open>BaseAgent.__init__\<close>; \<open>now\<close> is the clock reading of the two timestamp defaults.\<close>

definition BaseAgent ::
  "'v agent_class \<Rightarrow> time \<Rightarrow> string \<Rightarrow> string \<Rightarrow> agent_capability list \<Rightarrow> (string, 'v) dict option
     \<Rightarrow> 'v agent" where
  "BaseAgent c now aid nm caps cfg =
     agent_info ''Agent initialised''
       \<lparr>agent_id = aid, agent_name = nm, agent_status = IDLE, capabilities = caps,
        current_task = None, task_queue = [],
        memory = \<lparr>short_term = [], long_term = [], episodic = [], semantic = []\<rparr>,
        agent_context = [], metrics = initial_metrics, agent_created_at = now,
        last_active = now, config = (case cfg of None \<Rightarrow> [] | Some d \<Rightarrow> d),
        is_running = False, cls = c, invocations = [], agent_log = []\<rparr>"

text \<open>
  Calling the capability: the outcome is the class's \<open>process_task\<close> at the history so
  far, and the call is recorded in the ghost field.
\<close>

definition invoke :: "'v agent \<Rightarrow> 'v agent_task \<Rightarrow> (exception + (string, 'v) dict) \<times> 'v agent" where
  "invoke a t = (process_task (cls a) (invocations a) t, a\<lparr>invocations := invocations a @ [t]\<rparr>)"

text \<open>
  \<^verbatim>\<open>start\<close>: the worker loop it spawns runs concurrently and is modelled by
  \<open>worker_iteration\<close> below, one call per iteration.
\<close>

definition start :: "time \<Rightarrow> 'v agent \<Rightarrow> exception option \<times> 'v agent" where
  "start now a =
     (if is_running a then (None, agent_warning ''Agent already running'' a)
      else case initialize (cls a) of
        Some e \<Rightarrow> (Some e, agent_error ''Agent start failed'' (a\<lparr>agent_status := FAILED\<rparr>))
      | None \<Rightarrow>
          (None, agent_info ''Agent started''
                   (a\<lparr>is_running := True, agent_status := RUNNING, last_active := now\<rparr>)))"

definition stop :: "'v agent \<Rightarrow> exception option \<times> 'v agent" where
  "stop a =
     (if \<not> is_running a then (None, agent_warning ''Agent not running'' a)
      else let a1 = a\<lparr>is_running := False, agent_status := IDLE\<rparr> in
        case cleanup (cls a1) of
          Some e \<Rightarrow> (Some e, agent_error ''Agent stop failed'' (a1\<lparr>agent_status := FAILED\<rparr>))
        | None \<Rightarrow> (None, agent_info ''Agent stopped'' a1))"

text \<open>
  \<^verbatim>\<open>add_task\<close>: append, then \<^verbatim>\<open>sort(key=lambda t: t.priority, reverse=True)\<close>. Python's
  sort is stable, also with \<^verbatim>\<open>reverse=True\<close>: it is the stable sort by the negated
  priority.
\<close>

definition add_task :: "'v agent_task \<Rightarrow> 'v agent \<Rightarrow> 'v agent" where
  "add_task t a =
     agent_info ''Task added to queue''
       (a\<lparr>task_queue := sort_key (\<lambda>t. - priority t) (task_queue a @ [t])\<rparr>)"

definition update_metrics :: "bool \<Rightarrow> real \<Rightarrow> agent_metrics \<Rightarrow> agent_metrics" where
  "update_metrics success execution_time m =
     (let m1 = (if success then m\<lparr>tasks_completed := tasks_completed m + 1\<rparr>
                else m\<lparr>tasks_failed := tasks_failed m + 1\<rparr>);
          m2 = m1\<lparr>total_execution_time := total_execution_time m1 + execution_time\<rparr>;
          total_tasks = tasks_completed m2 + tasks_failed m2
      in if total_tasks > 0
         then m2\<lparr>average_execution_time := total_execution_time m2 / of_int total_tasks,
                 success_rate := of_int (tasks_completed m2) / of_int total_tasks\<rparr>
         else m2)"

text \<open>
  One iteration of the \<^verbatim>\<open>while\<close> loop of \<^verbatim>\<open>_process_task_queue\<close>. \<open>dt\<close> is the
  measured execution time and \<open>now\<close> the clock reading of the \<^verbatim>\<open>finally\<close> block. The
  result is the agent and the task the iteration finished, if it ran one. With the agent
  stopped the loop has ended, and with an empty queue the iteration only sleeps.
\<close>

definition worker_iteration :: "real \<Rightarrow> time \<Rightarrow> 'v agent \<Rightarrow> 'v agent \<times> 'v agent_task option" where
  "worker_iteration dt now a =
     (if \<not> is_running a then (a, None)
      else case task_queue a of
        [] \<Rightarrow> (a, None)
      | t # rest \<Rightarrow>
          (let task = t\<lparr>task_status := RUNNING\<rparr>;
               a1 = agent_info ''Start processing task''
                      (a\<lparr>task_queue := rest, current_task := Some task\<rparr>);
               (r, a2) = invoke a1 task
           in (case r of
                 Inr result \<Rightarrow>
                   ((agent_info ''Task processed''
                       (a2\<lparr>metrics := update_metrics True dt (metrics a2)\<rparr>))
                      \<lparr>current_task := None, last_active := now\<rparr>,
                    Some (task\<lparr>task_status := COMPLETED, task_result := Some result\<rparr>))
               | Inl e \<Rightarrow>
                   ((agent_error ''Task processing failed''
                       (a2\<lparr>metrics := update_metrics False dt (metrics a2)\<rparr>))
                      \<lparr>current_task := None, last_active := now\<rparr>,
                    Some (task\<lparr>task_status := FAILED, task_error := Some e\<rparr>)))))"

text \<open>Several iterations in a row, one per pair of clock readings.\<close>

fun worker_loop :: "(real \<times> time) list \<Rightarrow> 'v agent \<Rightarrow> 'v agent" where
  "worker_loop [] a = a"
| "worker_loop ((dt, now) # ticks) a = worker_loop ticks (fst (worker_iteration dt now a))"

text \<open>
  \<^verbatim>\<open>update_memory\<close>. \<^verbatim>\<open>xs[-50:]\<close> is the last 50 entries (all of them when there are
  fewer). \<open>stamp\<close> is the value of \<^verbatim>\<open>datetime.now().isoformat()\<close>.
\<close>

definition update_memory ::
  "'v \<Rightarrow> 'v list option \<Rightarrow> (string, 'v) dict option \<Rightarrow> (string, 'v) dict option
     \<Rightarrow> (string, 'v) dict option \<Rightarrow> 'v agent_memory \<Rightarrow> 'v agent_memory" where
  "update_memory stamp st lt ep sem m =
     (let m1 = (case st of None \<Rightarrow> m
                | Some msgs \<Rightarrow>
                    let ext = short_term m @ msgs
                    in if length ext > 100
                       then m\<lparr>short_term := drop (length ext - 50) ext\<rparr>
                       else m\<lparr>short_term := ext\<rparr>);
          m2 = (case lt of None \<Rightarrow> m1
                | Some d \<Rightarrow> m1\<lparr>long_term := dict_update (long_term m1) d\<rparr>);
          m3 = (case ep of None \<Rightarrow> m2
                | Some d \<Rightarrow>
                    m2\<lparr>episodic := episodic m2 @ [dict_update [(''timestamp'', stamp)] d]\<rparr>)
      in case sem of None \<Rightarrow> m3
         | Some d \<Rightarrow> m3\<lparr>semantic := dict_update (semantic m3) d\<rparr>)"

text \<open>A sequence of calls of \<^verbatim>\<open>update_memory\<close>, each with its own arguments.\<close>

type_synonym 'v memory_update =
  "'v \<times> 'v list option \<times> (string, 'v) dict option \<times> (string, 'v) dict option
     \<times> (string, 'v) dict option"

fun update_memory_seq :: "'v memory_update list \<Rightarrow> 'v agent_memory \<Rightarrow> 'v agent_memory" where
  "update_memory_seq [] m = m"
| "update_memory_seq ((stamp, st, lt, ep, sem) # us) m =
     update_memory_seq us (update_memory stamp st lt ep sem m)"

section \<open>agent\_orchestrator.py\<close>

datatype workflow_status =
  WF_PENDING | WF_RUNNING | WF_COMPLETED | WF_FAILED | WF_PAUSED | WF_CANCELLED

text \<open>\<^verbatim>\<open>WorkflowStep\<close>; \<^verbatim>\<open>id\<close> and \<^verbatim>\<open>name\<close> carry the prefix \<open>step_\<close>.\<close>

record 'v workflow_step =
  step_id :: string
  step_name :: string
  agent_type :: string
  input_mapping :: "(string, string) dict"
  output_mapping :: "(string, string) dict"
  conditions :: "(string, 'v) dict"
  retry_count :: int
  max_retries :: int
  timeout_seconds :: int

text \<open>
  \<^verbatim>\<open>WorkflowState\<close>, the Run State; \<^verbatim>\<open>name\<close> is \<open>workflow_name\<close> and \<^verbatim>\<open>context\<close> is
  \<open>run_context\<close>. \<open>error\<close> holds the exception whose \<^verbatim>\<open>str(e)\<close> the code stores.
\<close>

record 'v workflow_state =
  workflow_id :: string
  workflow_name :: string
  status :: workflow_status
  current_step :: "string option"
  completed_steps :: "string list"
  failed_steps :: "string list"
  run_context :: "(string, 'v) dict"
  results :: "(string, (string, 'v) dict) dict"
  created_at :: time
  started_at :: "time option"
  completed_at :: "time option"
  error :: "exception option"

text \<open>
  What \<^verbatim>\<open>create_workflow\<close> hands to the graph library: the steps that the node closures
  capture (a closure increments its step's \<open>retry_count\<close> in place, so the steps are part
  of the mutable state), the connections, and the entry point.
\<close>

record 'v compiled_graph =
  nodes :: "(string, 'v workflow_step) dict"
  edges :: "(string, string list) dict"
  entry_point :: string

text \<open>
  \<^verbatim>\<open>AgentOrchestrator\<close>. An entry of \<open>running_workflows\<close> stands for the
  \<^verbatim>\<open>asyncio.Task\<close> of an in-flight run; its flag says whether \<^verbatim>\<open>cancel()\<close> has been
  called on it. \<open>orch_log\<close> is what the orchestrator has written to its logger.
\<close>

record 'v orchestrator =
  agents :: "(string, 'v agent) dict"
  agent_types :: "(string, 'v agent_class) dict"
  workflows :: "(string, 'v compiled_graph) dict"
  workflow_states :: "(string, 'v workflow_state) dict"
  running_workflows :: "(string, bool) dict"
  orch_log :: "log_entry list"

definition info :: "string \<Rightarrow> string \<Rightarrow> 'v orchestrator \<Rightarrow> 'v orchestrator" where
  "info msg i orch = orch\<lparr>orch_log := orch_log orch @ [(INFO, msg, i)]\<rparr>"

definition warning :: "string \<Rightarrow> string \<Rightarrow> 'v orchestrator \<Rightarrow> 'v orchestrator" where
  "warning msg i orch = orch\<lparr>orch_log := orch_log orch @ [(WARNING, msg, i)]\<rparr>"

definition log_error :: "string \<Rightarrow> string \<Rightarrow> 'v orchestrator \<Rightarrow> 'v orchestrator" where
  "log_error msg i orch = orch\<lparr>orch_log := orch_log orch @ [(ERROR, msg, i)]\<rparr>"

text \<open>\<^verbatim>\<open>AgentOrchestrator.__init__\<close>\<close>

definition AgentOrchestrator :: "'v orchestrator" where
  "AgentOrchestrator =
     \<lparr>agents = [], agent_types = [], workflows = [], workflow_states = [],
      running_workflows = [], orch_log = [(INFO, ''Agent orchestrator initialised'', [])]\<rparr>"

definition register_agent_type :: "string \<Rightarrow> 'v agent_class \<Rightarrow> 'v orchestrator \<Rightarrow> 'v orchestrator" where
  "register_agent_type ty c orch =
     info ''Agent type registered'' ty (orch\<lparr>agent_types := AList.update ty c (agent_types orch)\<rparr>)"

text \<open>
  \<^verbatim>\<open>create_agent\<close>: the agent is stored in the registry before \<^verbatim>\<open>start\<close> is awaited,
  so it stays registered when \<^verbatim>\<open>start\<close> raises. \<open>now\<close> is the clock reading of the
  construction and of the start.
\<close>

definition create_agent ::
  "time \<Rightarrow> string \<Rightarrow> string \<Rightarrow> string \<Rightarrow> agent_capability list \<Rightarrow> (string, 'v) dict option
     \<Rightarrow> 'v orchestrator \<Rightarrow> (exception + 'v agent) \<times> 'v orchestrator" where
  "create_agent now aid ty nm caps cfg orch =
     (case map_of (agent_types orch) ty of
        None \<Rightarrow> (Inl (UnknownAgentType ty), orch)
      | Some agent_class \<Rightarrow>
          if has_key (agents orch) aid then (Inl (AgentIdExists aid), orch)
          else
            (let (r, agent) = start now (BaseAgent agent_class now aid nm caps cfg);
                 orch1 = orch\<lparr>agents := AList.update aid agent (agents orch)\<rparr>
             in (case r of
                   Some e \<Rightarrow> (Inl e, orch1)
                 | None \<Rightarrow> (Inr agent, info ''Agent created and started'' aid orch1))))"

definition get_agent :: "string \<Rightarrow> 'v orchestrator \<Rightarrow> 'v agent option" where
  "get_agent aid orch = map_of (agents orch) aid"

text \<open>\<^verbatim>\<open>remove_agent\<close>; the result is the exception raised, if any, and the new state.\<close>

definition remove_agent :: "string \<Rightarrow> 'v orchestrator \<Rightarrow> exception option \<times> 'v orchestrator" where
  "remove_agent aid orch =
     (case map_of (agents orch) aid of
        None \<Rightarrow> (None, warning ''Agent does not exist'' aid orch)
      | Some agent \<Rightarrow>
          (let (r, agent1) = stop agent;
               orch1 = orch\<lparr>agents := AList.update aid agent1 (agents orch)\<rparr>
           in (case r of
                 Some e \<Rightarrow> (Some e, orch1)
               | None \<Rightarrow>
                   (None, info ''Agent removed'' aid
                            (orch1\<lparr>agents := AList.delete aid (agents orch1)\<rparr>)))))"

text \<open>
  \<^verbatim>\<open>create_workflow\<close>. With an empty list of steps no entry point is set and
  \<^verbatim>\<open>graph.compile()\<close> raises before anything is stored. The rest of the graph library's
  validation at \<^verbatim>\<open>add_node\<close>, \<^verbatim>\<open>add_edge\<close> and \<^verbatim>\<open>compile\<close> is not part of the
  repository and not modelled: step ids are taken to be distinct and edges to join
  declared steps.
\<close>

definition create_workflow ::
  "time \<Rightarrow> string \<Rightarrow> string \<Rightarrow> 'v workflow_step list \<Rightarrow> (string, string list) dict
     \<Rightarrow> 'v orchestrator \<Rightarrow> exception option \<times> 'v orchestrator" where
  "create_workflow now wid nm steps connections orch =
     (if has_key (workflows orch) wid then (Some (WorkflowIdExists wid), orch)
      else
        (case steps of
           [] \<Rightarrow> (Some GraphHasNoEntrypoint, orch)
         | first_step # rest \<Rightarrow>
             (let compiled =
                    \<lparr>nodes = map (\<lambda>step. (step_id step, step)) steps, edges = connections,
                     entry_point = step_id first_step\<rparr>;
                  state =
                    \<lparr>workflow_id = wid, workflow_name = nm, status = WF_PENDING,
                     current_step = None, completed_steps = [], failed_steps = [],
                     run_context = [], results = [], created_at = now, started_at = None,
                     completed_at = None, error = None\<rparr>
              in (None, info ''Workflow created'' wid
                          (orch\<lparr>workflows := AList.update wid compiled (workflows orch),
                                workflow_states :=
                                  AList.update wid state (workflow_states orch)\<rparr>)))))"

text \<open>\<^verbatim>\<open>_check_conditions\<close>: the loop returns \<^verbatim>\<open>False\<close> at the first pair that fails.\<close>

fun check_conditions :: "(string, 'v) dict \<Rightarrow> (string, 'v) dict \<Rightarrow> bool" where
  "check_conditions [] ctx = True"
| "check_conditions ((key, expected_value) # rest) ctx =
     (if \<not> has_key ctx key \<or> map_of ctx key \<noteq> Some expected_value then False
      else check_conditions rest ctx)"

definition prepare_input :: "(string, string) dict \<Rightarrow> (string, 'v) dict \<Rightarrow> (string, 'v) dict" where
  "prepare_input im ctx =
     fold (\<lambda>(output_key, context_key) input_data.
             case map_of ctx context_key of
               Some v \<Rightarrow> AList.update output_key v input_data
             | None \<Rightarrow> input_data) im []"

definition process_output :: "(string, string) dict \<Rightarrow> (string, 'v) dict \<Rightarrow> (string, 'v) dict" where
  "process_output om result =
     fold (\<lambda>(result_key, context_key) output_data.
             case map_of result result_key of
               Some v \<Rightarrow> AList.update context_key v output_data
             | None \<Rightarrow> output_data) om []"

definition agent_key :: "string \<Rightarrow> string \<Rightarrow> string" where
  "agent_key ty sid = ty @ ''_'' @ sid"

definition get_or_create_agent ::
  "time \<Rightarrow> string \<Rightarrow> string \<Rightarrow> 'v orchestrator \<Rightarrow> (exception + 'v agent) \<times> 'v orchestrator" where
  "get_or_create_agent now ty sid orch =
     (case map_of (agents orch) (agent_key ty sid) of
        Some agent \<Rightarrow> (Inr agent, orch)
      | None \<Rightarrow> create_agent now (agent_key ty sid) ty (ty @ '' for '' @ sid) [] (Some []) orch)"

text \<open>
  The \<^verbatim>\<open>try\<close> block of \<^verbatim>\<open>step_function\<close>: one attempt at the step. The result is the
  exception the block ends with, if any, and the orchestrator and Run State as the block
  leaves them. The agent is an object of the registry, so the call recorded on it is
  written back under its key.
\<close>

definition attempt ::
  "time \<Rightarrow> 'v workflow_step \<Rightarrow> 'v orchestrator \<Rightarrow> 'v workflow_state
     \<Rightarrow> exception option \<times> 'v orchestrator \<times> 'v workflow_state" where
  "attempt now step orch state =
     (let orch1 = info ''Start executing step'' (step_id step) orch;
          state1 = state\<lparr>current_step := Some (step_id step)\<rparr>
      in if \<not> check_conditions (conditions step) (run_context state1)
         then (None, info ''Step conditions not met, skipping'' (step_id step) orch1,
               state1\<lparr>completed_steps := completed_steps state1 @ [step_id step]\<rparr>)
         else
           (let input_data = prepare_input (input_mapping step) (run_context state1);
                (ra, orch2) = get_or_create_agent now (agent_type step) (step_id step) orch1
            in (case ra of
                  Inl e \<Rightarrow> (Some e, orch2, state1)
                | Inr agent \<Rightarrow>
                    (let task = AgentTask (workflow_id state1 @ ''_'' @ step_id step)
                                  (step_name step) input_data;
                         (r, agent1) = invoke agent task;
                         orch3 = orch2\<lparr>agents :=
                                   AList.update (agent_key (agent_type step) (step_id step))
                                     agent1 (agents orch2)\<rparr>
                     in (case r of
                           Inl e \<Rightarrow> (Some e, orch3, state1)
                         | Inr result \<Rightarrow>
                             (let output_data = process_output (output_mapping step) result;
                                  state2 = state1
                                    \<lparr>run_context := dict_update (run_context state1) output_data,
                                     results := AList.update (step_id step) result (results state1),
                                     completed_steps := completed_steps state1 @ [step_id step]\<rparr>
                              in (None, info ''Step completed'' (step_id step) orch3,
                                  state2)))))))"

text \<open>
  \<^verbatim>\<open>step_function\<close>, the closure of \<^verbatim>\<open>_create_step_function\<close> over \<open>step\<close>: the
  \<^verbatim>\<open>try\<close> block, then the \<^verbatim>\<open>except\<close> handler, which increments the captured step's
  counter and either calls the closure again or marks the Run State failed. \<open>state\<close> is
  the Run State object the closure is called with. The closure returns it in every case
  and raises in none; the step comes back as the closure leaves it.
\<close>

function step_function ::
  "time \<Rightarrow> 'v workflow_step \<Rightarrow> 'v orchestrator \<Rightarrow> 'v workflow_state
     \<Rightarrow> 'v workflow_step \<times> 'v orchestrator \<times> 'v workflow_state" where
  "step_function now step orch state =
     (case attempt now step orch state of
        (None, orch1, state1) \<Rightarrow> (step, orch1, state1)
      | (Some e, orch1, state1) \<Rightarrow>
          (let orch2 = log_error ''Step execution failed'' (step_id step) orch1;
               step1 = step\<lparr>retry_count := retry_count step + 1\<rparr>
           in if retry_count step1 \<le> max_retries step1
              then step_function now step1 (info ''Retrying step'' (step_id step) orch2) state1
              else (step1, orch2,
                    state1\<lparr>failed_steps := failed_steps state1 @ [step_id step1],
                           status := WF_FAILED, error := Some e\<rparr>)))"
  by pat_completeness auto
termination
  by (relation "measure (\<lambda>(now, step, orch, state). nat (max_retries step + 1 - retry_count step))")
    auto

declare step_function.simps [simp del]

text \<open>
  The compiled graph's \<^verbatim>\<open>ainvoke\<close> belongs to the graph library, not to the repository.
  What the orchestrator meets of it is modelled here. The library keeps the fields of the
  Run State in channels of its own: it reads them from the object it is given, calls a
  node closure on a Run State built from the channel values, and takes the fields of the
  object the closure returns as the new channel values. The closures therefore work on
  copies, which pass from one node to the next; the object that \<^verbatim>\<open>execute_workflow\<close>
  holds receives none of their writes. What persists of a closure's work is what it does
  to objects outside the Run State: the agents and the retry counter of its step.

  A run proceeds in rounds, starting with the entry point. A round of one node calls its
  closure and goes on to its successors along the declared edges (an empty successor list
  is the edge to \<^verbatim>\<open>END\<close>), whatever the closure wrote: the edges of \<^verbatim>\<open>create_workflow\<close>
  are unconditional. A round of several nodes calls every closure on the values the round
  started with (here one after the other) and then fails with \<open>InvalidUpdateError\<close>,
  since all of them write every channel. A round without nodes ends the run, which
  returns the channel values as a \<^verbatim>\<open>dict\<close>, here the record \<open>vals\<close>. \<open>limit\<close> is the
  library's bound on the number of rounds.
\<close>

definition successors :: "'v compiled_graph \<Rightarrow> string \<Rightarrow> string list" where
  "successors g n = (case map_of (edges g) n of None \<Rightarrow> [] | Some ts \<Rightarrow> ts)"

fun run_round ::
  "time \<Rightarrow> string list \<Rightarrow> 'v compiled_graph \<Rightarrow> 'v orchestrator \<Rightarrow> 'v workflow_state
     \<Rightarrow> exception option \<times> 'v compiled_graph \<times> 'v orchestrator" where
  "run_round now [] g orch vals = (None, g, orch)"
| "run_round now (n # ns) g orch vals =
     (case map_of (nodes g) n of
        None \<Rightarrow> (Some (KeyError n), g, orch)
      | Some step \<Rightarrow>
          (case step_function now step orch vals of
             (step1, orch1, vals1) \<Rightarrow>
               run_round now ns (g\<lparr>nodes := AList.update n step1 (nodes g)\<rparr>) orch1 vals))"

fun run_graph ::
  "nat \<Rightarrow> time \<Rightarrow> string list \<Rightarrow> 'v compiled_graph \<Rightarrow> 'v orchestrator \<Rightarrow> 'v workflow_state
     \<Rightarrow> exception option \<times> 'v compiled_graph \<times> 'v orchestrator \<times> 'v workflow_state" where
  "run_graph limit now [] g orch vals = (None, g, orch, vals)"
| "run_graph 0 now (n # ns) g orch vals = (Some GraphRecursionError, g, orch, vals)"
| "run_graph (Suc limit) now [n] g orch vals =
     (case map_of (nodes g) n of
        None \<Rightarrow> (Some (KeyError n), g, orch, vals)
      | Some step \<Rightarrow>
          (case step_function now step orch vals of
             (step1, orch1, vals1) \<Rightarrow>
               run_graph limit now (remdups (successors g n))
                 (g\<lparr>nodes := AList.update n step1 (nodes g)\<rparr>) orch1 vals1))"
| "run_graph (Suc limit) now (n # m # ns) g orch vals =
     (case run_round now (n # m # ns) g orch vals of
        (Some e, g1, orch1) \<Rightarrow> (Some e, g1, orch1, vals)
      | (None, g1, orch1) \<Rightarrow> (Some InvalidUpdateError, g1, orch1, vals))"

definition ainvoke ::
  "nat \<Rightarrow> time \<Rightarrow> 'v compiled_graph \<Rightarrow> 'v orchestrator \<Rightarrow> 'v workflow_state
     \<Rightarrow> exception option \<times> 'v compiled_graph \<times> 'v orchestrator \<times> 'v workflow_state" where
  "ainvoke limit now g orch state = run_graph limit now [entry_point g] g orch state"

text \<open>
  \<^verbatim>\<open>execute_workflow\<close> up to the point where it awaits the run: the two checks, the
  reset of the Run State (\<open>t_start\<close> is the clock reading), and the registration of the
  run as in flight. While the run is awaited other calls on the orchestrator can be
  served; they see the state this leaves, with the agents and retry counters as the steps
  executed so far have left them.
\<close>

definition execute_begin ::
  "time \<Rightarrow> string \<Rightarrow> (string, 'v) dict \<Rightarrow> 'v orchestrator \<Rightarrow> exception option \<times> 'v orchestrator" where
  "execute_begin t_start wid input_data orch =
     (if \<not> has_key (workflows orch) wid then (Some (WorkflowNotFound wid), orch)
      else if has_key (running_workflows orch) wid then (Some (WorkflowRunning wid), orch)
      else
        (case map_of (workflow_states orch) wid of
           None \<Rightarrow> (Some (KeyError wid), orch)
         | Some state \<Rightarrow>
             (let state1 = state
                    \<lparr>status := WF_RUNNING, started_at := Some t_start, run_context := input_data,
                     results := [], completed_steps := [], failed_steps := [], error := None\<rparr>;
                  orch1 = info ''Start executing workflow'' wid
                            (orch\<lparr>workflow_states := AList.update wid state1 (workflow_states orch)\<rparr>)
              in (None, orch1\<lparr>running_workflows := AList.update wid False (running_workflows orch1)\<rparr>))))"

text \<open>
  The awaited run, \<^verbatim>\<open>_run_workflow\<close>: \<^verbatim>\<open>ainvoke\<close> on the graph and the Run State stored
  under \<open>wid\<close>. The result is what the await gives, an exception or the \<^verbatim>\<open>dict\<close> that
  \<^verbatim>\<open>ainvoke\<close> returns. The retry counters of the steps are written back to the graph;
  the stored Run State is as before.
\<close>

definition run_workflow ::
  "nat \<Rightarrow> time \<Rightarrow> string \<Rightarrow> 'v orchestrator
     \<Rightarrow> (exception + 'v workflow_state) \<times> 'v orchestrator" where
  "run_workflow limit now wid orch =
     (case (map_of (workflows orch) wid, map_of (workflow_states orch) wid) of
        (Some g, Some state) \<Rightarrow>
          (case ainvoke limit now g orch state of
             (r, g1, orch1, vals) \<Rightarrow>
               ((case r of Some e \<Rightarrow> Inl e | None \<Rightarrow> Inr vals),
                orch1\<lparr>workflows := AList.update wid g1 (workflows orch1)\<rparr>))
      | _ \<Rightarrow> (Inl (KeyError wid), orch))"

text \<open>
  The \<^verbatim>\<open>except Exception\<close> branch of \<^verbatim>\<open>execute_workflow\<close> followed by its
  \<^verbatim>\<open>finally\<close> block and the \<^verbatim>\<open>return\<close>: the stored Run State is marked failed with the
  error and the clock reading \<open>t_end\<close>, and the run is taken out of the in-flight set.
\<close>

definition execute_failed ::
  "time \<Rightarrow> string \<Rightarrow> exception \<Rightarrow> 'v orchestrator
     \<Rightarrow> (exception + 'v workflow_state) \<times> 'v orchestrator" where
  "execute_failed t_end wid e orch =
     (case map_of (workflow_states orch) wid of
        None \<Rightarrow> (Inl (KeyError wid), orch)
      | Some state \<Rightarrow>
          (let state1 = state\<lparr>status := WF_FAILED, error := Some e, completed_at := Some t_end\<rparr>;
               orch1 = log_error ''Workflow execution failed'' wid
                         (orch\<lparr>workflow_states := AList.update wid state1 (workflow_states orch)\<rparr>)
           in (Inr state1,
               orch1\<lparr>running_workflows := AList.delete wid (running_workflows orch1)\<rparr>)))"

text \<open>
  \<^verbatim>\<open>execute_workflow\<close> after the await; \<open>r\<close> is what the await gave. A
  \<open>CancelledError\<close> passes the \<^verbatim>\<open>except\<close> clause: the \<^verbatim>\<open>finally\<close> block takes the run out
  of the in-flight set and the error goes to the caller, the Run State untouched. Any
  other exception is handled by the \<^verbatim>\<open>except\<close> branch. When the run returns, what it
  returns is a \<^verbatim>\<open>dict\<close>: the assignment \<^verbatim>\<open>final_state.status = ...\<close> raises an
  \<open>AttributeError\<close>, which the same \<^verbatim>\<open>except\<close> branch handles. No path marks the Run
  State completed.
\<close>

definition execute_end ::
  "time \<Rightarrow> string \<Rightarrow> exception + 'v workflow_state \<Rightarrow> 'v orchestrator
     \<Rightarrow> (exception + 'v workflow_state) \<times> 'v orchestrator" where
  "execute_end t_end wid r orch =
     (case r of
        Inl e \<Rightarrow>
          if e = CancelledError
          then (Inl CancelledError,
                orch\<lparr>running_workflows := AList.delete wid (running_workflows orch)\<rparr>)
          else execute_failed t_end wid e orch
      | Inr vals \<Rightarrow> execute_failed t_end wid (AttributeError ''dict'' ''status'') orch)"

text \<open>
  \<^verbatim>\<open>execute_workflow\<close> with nothing else served while the run is awaited. An agent
  created during the run is stamped with the clock reading \<open>t_start\<close>.
\<close>

definition execute_workflow ::
  "nat \<Rightarrow> time \<Rightarrow> time \<Rightarrow> string \<Rightarrow> (string, 'v) dict \<Rightarrow> 'v orchestrator
     \<Rightarrow> (exception + 'v workflow_state) \<times> 'v orchestrator" where
  "execute_workflow limit t_start t_end wid input_data orch =
     (case execute_begin t_start wid input_data orch of
        (Some e, orch1) \<Rightarrow> (Inl e, orch1)
      | (None, orch1) \<Rightarrow>
          (case run_workflow limit t_start wid orch1 of
             (r, orch2) \<Rightarrow> execute_end t_end wid r orch2))"

definition get_workflow_status :: "string \<Rightarrow> 'v orchestrator \<Rightarrow> 'v workflow_state option" where
  "get_workflow_status wid orch = map_of (workflow_states orch) wid"

text \<open>
  \<^verbatim>\<open>cancel_workflow\<close>; \<open>now\<close> is the clock reading. The result is the exception raised,
  if any, and the new state.
\<close>

definition cancel_workflow ::
  "time \<Rightarrow> string \<Rightarrow> 'v orchestrator \<Rightarrow> exception option \<times> 'v orchestrator" where
  "cancel_workflow now wid orch =
     (if \<not> has_key (running_workflows orch) wid
      then (None, warning ''Workflow is not running'' wid orch)
      else
        (let orch1 = orch\<lparr>running_workflows := AList.update wid True (running_workflows orch)\<rparr>
         in (case map_of (workflow_states orch1) wid of
               None \<Rightarrow> (Some (KeyError wid), orch1)
             | Some state \<Rightarrow>
                 (None, info ''Workflow cancelled'' wid
                          (orch1\<lparr>workflow_states :=
                              AList.update wid
                                (state\<lparr>status := WF_CANCELLED, completed_at := Some now\<rparr>)
                                (workflow_states orch1)\<rparr>)))))"

section \<open>Observations and frame conditions\<close>

text \<open>
  The calls of the capability of the agent registered under \<open>aid\<close>, oldest first: the
  identifier and the input of each submitted task.
\<close>

definition calls :: "string \<Rightarrow> 'v orchestrator \<Rightarrow> (string \<times> (string, 'v) dict) list" where
  "calls aid orch =
     (case get_agent aid orch of None \<Rightarrow> []
      | Some a \<Rightarrow> map (\<lambda>t. (task_id t, payload t)) (invocations a))"

text \<open>What \<^verbatim>\<open>execute_workflow\<close> returned: status, failed steps, completed steps, error.\<close>

definition run_summary ::
  "(exception + 'v workflow_state) \<times> 'v orchestrator
     \<Rightarrow> (workflow_status \<times> string list \<times> string list \<times> exception option) option" where
  "run_summary r =
     (case fst r of
        Inl e \<Rightarrow> None
      | Inr st \<Rightarrow> Some (status st, failed_steps st, completed_steps st, error st))"

text \<open>Status, start time and completion time of the Run State stored under \<open>wid\<close>.\<close>

definition run_times ::
  "string \<Rightarrow> 'v orchestrator \<Rightarrow> (workflow_status \<times> time option \<times> time option) option" where
  "run_times wid orch =
     (case get_workflow_status wid orch of
        None \<Rightarrow> None
      | Some st \<Rightarrow> Some (status st, started_at st, completed_at st))"

text \<open>The retry counter and the retry budget of every step of workflow \<open>wid\<close>.\<close>

definition retry_counters :: "string \<Rightarrow> 'v orchestrator \<Rightarrow> (string \<times> int \<times> int) list" where
  "retry_counters wid orch =
     (case map_of (workflows orch) wid of
        None \<Rightarrow> []
      | Some g \<Rightarrow> map (\<lambda>(n, step). (n, retry_count step, max_retries step)) (nodes g))"

text \<open>A task as its constructor left it: no status, result or error has been recorded.\<close>

definition untouched :: "'v agent_task \<Rightarrow> bool" where
  "untouched t = (task_status t = IDLE \<and> task_result t = None \<and> task_error t = None)"

text \<open>
  \<open>agent_frame before a'\<close>: the agent \<open>a'\<close> has the queue, the current task and the
  metrics it had before (of a fresh agent, if there was none before), and every call of
  its capability since then was made with an untouched task. \<open>agents_frame\<close> says so of
  every agent of the registry, and that no agent has left the registry.
\<close>

definition agent_frame :: "'v agent option \<Rightarrow> 'v agent \<Rightarrow> bool" where
  "agent_frame before a' =
     (case before of
        Some a \<Rightarrow>
          task_queue a' = task_queue a \<and> current_task a' = current_task a \<and>
          metrics a' = metrics a \<and>
          take (length (invocations a)) (invocations a') = invocations a \<and>
          list_all untouched (drop (length (invocations a)) (invocations a'))
      | None \<Rightarrow>
          task_queue a' = [] \<and> current_task a' = None \<and> metrics a' = initial_metrics \<and>
          list_all untouched (invocations a'))"

definition agents_frame :: "'v orchestrator \<Rightarrow> 'v orchestrator \<Rightarrow> bool" where
  "agents_frame orch orch' =
     (\<forall>k. case map_of (agents orch') k of
            None \<Rightarrow> map_of (agents orch) k = None
          | Some a' \<Rightarrow> agent_frame (map_of (agents orch) k) a')"

section \<open>A workflow of two steps\<close>

text \<open>
  Two agent classes over integer values: the capability of \<open>echo_class\<close> returns its
  input, that of \<open>failing_class\<close> raises on every call.
\<close>

definition echo_class :: "int agent_class" where
  "echo_class =
     \<lparr>initialize = None, process_task = (\<lambda>history task. Inr (payload task)), cleanup = None\<rparr>"

definition failing_class :: "int agent_class" where
  "failing_class =
     \<lparr>initialize = None, process_task = (\<lambda>history task. Inl (Raised ''boom'')),
      cleanup = None\<rparr>"

text \<open>
  The workflow \<open>A \<rightarrow> B \<rightarrow> END\<close>. Step \<open>A\<close> runs on the failing class with
  \<^verbatim>\<open>max_retries=2\<close>; step \<open>B\<close> has no condition and runs on the echo class. Step \<open>C\<close>
  requires \<^verbatim>\<open>y == 5\<close>.
\<close>

definition step_A :: "int workflow_step" where
  "step_A =
     \<lparr>step_id = ''A'', step_name = ''first'', agent_type = ''failing'',
      input_mapping = [(''in'', ''x'')], output_mapping = [(''out'', ''y'')], conditions = [],
      retry_count = 0, max_retries = 2, timeout_seconds = 300\<rparr>"

definition step_B :: "int workflow_step" where
  "step_B =
     \<lparr>step_id = ''B'', step_name = ''second'', agent_type = ''echo'',
      input_mapping = [(''in'', ''x'')], output_mapping = [(''in'', ''z'')], conditions = [],
      retry_count = 0, max_retries = 3, timeout_seconds = 300\<rparr>"

definition step_C :: "int workflow_step" where
  "step_C =
     \<lparr>step_id = ''C'', step_name = ''third'', agent_type = ''echo'',
      input_mapping = [(''in'', ''x'')], output_mapping = [(''in'', ''z'')],
      conditions = [(''y'', 5)],
      retry_count = 0, max_retries = 3, timeout_seconds = 300\<rparr>"

definition demo :: "int orchestrator" where
  "demo =
     snd (create_workflow 0 ''wf'' ''demo'' [step_A, step_B] [(''A'', [''B'']), (''B'', [])]
       (register_agent_type ''failing'' failing_class
         (register_agent_type ''echo'' echo_class AgentOrchestrator)))"

text \<open>The workflow is executed with input \<^verbatim>\<open>{x: 3}\<close>, and then once more.\<close>

definition first_run :: "(exception + int workflow_state) \<times> int orchestrator" where
  "first_run = execute_workflow 25 1 2 ''wf'' [(''x'', 3)] demo"

definition second_run :: "(exception + int workflow_state) \<times> int orchestrator" where
  "second_run = execute_workflow 25 3 4 ''wf'' [(''x'', 3)] (snd first_run)"

text \<open>The orchestrator while a run of the workflow, started at time 1, is awaited.\<close>

definition in_flight :: "int orchestrator" where
  "in_flight = snd (execute_begin 1 ''wf'' [(''x'', 3)] demo)"

definition in_flight_state :: "int workflow_state" where
  "in_flight_state =
     \<lparr>workflow_id = ''wf'', workflow_name = ''demo'', status = WF_RUNNING, current_step = None,
      completed_steps = [], failed_steps = [], run_context = [(''x'', 3)], results = [],
      created_at = 0, started_at = Some 1, completed_at = None, error = None\<rparr>"

text \<open>A started agent with an empty queue, and three tasks of priorities 5, 1 and 5.\<close>

definition worker :: "int agent" where
  "worker = snd (start 0 (BaseAgent echo_class 0 ''w'' ''worker'' [] None))"

definition task_high :: "int agent_task" where
  "task_high = (AgentTask ''high'' ''job'' [])\<lparr>priority := 5\<rparr>"

definition task_low :: "int agent_task" where
  "task_low = AgentTask ''low'' ''job'' []"

definition task_late :: "int agent_task" where
  "task_late = (AgentTask ''late'' ''job'' [])\<lparr>priority := 5\<rparr>"

section \<open>Basic facts\<close>

lemma agents_log [simp]:
  "agents (info msg i orch) = agents orch"
  "agents (warning msg i orch) = agents orch"
  "agents (log_error msg i orch) = agents orch"
  by (simp_all add: info_def warning_def log_error_def)

lemma calls_log [simp]:
  "calls k (info msg i orch) = calls k orch"
  "calls k (log_error msg i orch) = calls k orch"
  by (simp_all add: calls_def get_agent_def)

lemma create_agent_registers:
  assumes "create_agent now aid ty nm caps cfg orch = (Inr agent, orch')"
  shows "map_of (agents orch') aid = Some agent"
  using assms
  by (auto simp: create_agent_def Let_def split_beta update_conv'
      split: option.splits if_splits)

lemma get_or_create_agent_registers:
  assumes "get_or_create_agent now ty sid orch = (Inr agent, orch')"
  shows "map_of (agents orch') (agent_key ty sid) = Some agent"
proof (cases "map_of (agents orch) (agent_key ty sid)")
  case None
  with assms have
    "create_agent now (agent_key ty sid) ty (ty @ '' for '' @ sid) [] (Some []) orch =
       (Inr agent, orch')"
    by (simp add: get_or_create_agent_def)
  then show ?thesis by (rule create_agent_registers)
next
  case (Some a)
  with assms show ?thesis by (auto simp: get_or_create_agent_def)
qed

section \<open>The agent's memory and queue\<close>

lemma update_memory_short_term:
  "short_term (update_memory stamp st lt ep sem m) =
     (case st of None \<Rightarrow> short_term m
      | Some msgs \<Rightarrow>
          if length (short_term m @ msgs) > 100
          then drop (length (short_term m @ msgs) - 50) (short_term m @ msgs)
          else short_term m @ msgs)"
  by (simp add: update_memory_def Let_def split: option.splits)

lemma length_last_50:
  "100 < length (xs::'a list) \<Longrightarrow> length (drop (length xs - 50) xs) = 50"
proof -
  assume "100 < length xs"
  then have "length xs - (length xs - 50) = 50" by arith
  then show ?thesis by (simp only: length_drop)
qed

lemma update_memory_bounded:
  "length (short_term m) \<le> 100 \<Longrightarrow>
     length (short_term (update_memory stamp st lt ep sem m)) \<le> 100"
proof (cases st)
  case None
  then show "length (short_term m) \<le> 100 \<Longrightarrow> ?thesis"
    by (simp add: update_memory_short_term)
next
  case (Some msgs)
  show ?thesis
  proof (cases "100 < length (short_term m @ msgs)")
    case True
    then show ?thesis
      unfolding update_memory_short_term Some using length_last_50 [OF True] by simp
  next
    case False
    then show ?thesis
      unfolding update_memory_short_term Some by simp
  qed
qed

lemma update_memory_seq_bounded:
  "length (short_term m) \<le> 100 \<Longrightarrow> length (short_term (update_memory_seq us m)) \<le> 100"
proof (induction us arbitrary: m)
  case Nil
  then show ?case by simp
next
  case (Cons u us)
  obtain stamp st lt ep sem where u: "u = (stamp, st, lt, ep, sem)"
    by (cases u) auto
  from Cons.prems have "length (short_term (update_memory stamp st lt ep sem m)) \<le> 100"
    by (rule update_memory_bounded)
  then show ?case unfolding u by (simp add: Cons.IH)
qed

text \<open>
  C8. A short-term buffer of at most 100 entries (an agent starts with none) holds at most
  100 entries after any sequence of calls of \<^verbatim>\<open>update_memory\<close>; and a call whose
  messages take the buffer beyond 100 entries leaves exactly the 50 most recent ones.
\<close>

theorem short_term_capped:
  assumes "length (short_term m) \<le> 100"
  shows "length (short_term (update_memory_seq us m)) \<le> 100 \<and>
         (length (short_term m @ msgs) > 100 \<longrightarrow>
            short_term (update_memory stamp (Some msgs) lt ep sem m) =
              drop (length (short_term m @ msgs) - 50) (short_term m @ msgs) \<and>
            length (short_term (update_memory stamp (Some msgs) lt ep sem m)) = 50)"
proof (intro conjI impI)
  show "length (short_term (update_memory_seq us m)) \<le> 100"
    using assms by (rule update_memory_seq_bounded)
next
  assume over: "100 < length (short_term m @ msgs)"
  then show trunc: "short_term (update_memory stamp (Some msgs) lt ep sem m) =
      drop (length (short_term m @ msgs) - 50) (short_term m @ msgs)"
    by (simp only: update_memory_short_term option.case if_True)
  show "length (short_term (update_memory stamp (Some msgs) lt ep sem m)) = 50"
    unfolding trunc using over by (rule length_last_50)
qed

theorem short_term_capped_witness:
  "length (short_term (update_memory_seq [(0, Some [1, 2, 3], None, None, None)]
      \<lparr>short_term = replicate 99 (7::int), long_term = [], episodic = [], semantic = []\<rparr>)) \<le> 100 \<and>
   short_term (update_memory 0 (Some [1, 2, 3]) None None None
      \<lparr>short_term = replicate 99 (7::int), long_term = [], episodic = [], semantic = []\<rparr>) =
     replicate 47 7 @ [1, 2, 3] \<and>
   length (short_term (update_memory 0 (Some [1, 2, 3]) None None None
      \<lparr>short_term = replicate 99 (7::int), long_term = [], episodic = [], semantic = []\<rparr>)) = 50"
  using short_term_capped [of "\<lparr>short_term = replicate 99 (7::int), long_term = [],
      episodic = [], semantic = []\<rparr>"
      "[(0, Some [1, 2, 3], None, None, None)]" "[1, 2, 3]" 0 None None None]
  by simp

lemma add_task_queue:
  "task_queue (add_task t a) = sort_key (\<lambda>t. - priority t) (task_queue a @ [t])"
  by (simp add: add_task_def agent_info_def)

lemma add_task_sorted: "sorted (map (\<lambda>t. - priority t) (task_queue (add_task t a)))"
  by (simp add: add_task_queue)

lemma add_task_stable:
  "filter (\<lambda>u. priority u = p) (task_queue (add_task t a)) =
     filter (\<lambda>u. priority u = p) (task_queue a @ [t])"
proof -
  have "filter (\<lambda>u. - priority u = - p) (sort_key (\<lambda>t. - priority t) (task_queue a @ [t]))
        = filter (\<lambda>u. - priority u = - p) (task_queue a @ [t])"
    by (rule sort_key_stable)
  then show ?thesis by (simp add: add_task_queue)
qed

lemma add_two_queue:
  assumes "task_queue a = []"
  shows "priority t1 \<ge> priority t2 \<Longrightarrow> task_queue (add_task t2 (add_task t1 a)) = [t1, t2]"
    and "priority t1 > priority t2 \<Longrightarrow> task_queue (add_task t1 (add_task t2 a)) = [t1, t2]"
  using assms by (simp_all add: add_task_queue)

lemma worker_iteration_invocations:
  "is_running a \<Longrightarrow> task_queue a = t # rest \<Longrightarrow>
     invocations (fst (worker_iteration dt now a)) =
       invocations a @ [t\<lparr>task_status := RUNNING\<rparr>] \<and>
     task_queue (fst (worker_iteration dt now a)) = rest \<and>
     is_running (fst (worker_iteration dt now a))"
  by (simp add: worker_iteration_def invoke_def agent_info_def agent_error_def Let_def
      split: sum.splits)

lemma add_task_frame:
  "is_running (add_task t a) = is_running a" "invocations (add_task t a) = invocations a"
  by (simp_all add: add_task_def agent_info_def)

lemma worker_two:
  assumes "is_running a" "task_queue a = [t1, t2]"
  shows "invocations (worker_loop [(d1, n1), (d2, n2)] a) =
           invocations a @ [t1\<lparr>task_status := RUNNING\<rparr>, t2\<lparr>task_status := RUNNING\<rparr>]"
proof -
  let ?a1 = "fst (worker_iteration d1 n1 a)"
  have 1: "invocations ?a1 = invocations a @ [t1\<lparr>task_status := RUNNING\<rparr>]"
    "task_queue ?a1 = [t2]" "is_running ?a1"
    using worker_iteration_invocations [OF assms, of d1 n1] by simp_all
  have "invocations (fst (worker_iteration d2 n2 ?a1)) =
          invocations ?a1 @ [t2\<lparr>task_status := RUNNING\<rparr>]"
    using worker_iteration_invocations [OF 1(3) 1(2), of d2 n2] by simp
  with 1 show ?thesis by simp
qed

text \<open>
  C4. Two tasks are submitted with \<^verbatim>\<open>add_task\<close> to a running agent whose queue is empty,
  and the worker loop then runs two iterations. If \<open>t1\<close> has the higher priority, the
  capability is invoked with \<open>t1\<close> first and \<open>t2\<close> second (each marked running),
  whichever was submitted first; if the priorities are equal, the task submitted first is
  invoked first.
\<close>

theorem higher_priority_first:
  assumes "task_queue a = []" and "is_running a"
  shows "(priority t1 > priority t2 \<longrightarrow>
            invocations (worker_loop [(d1, n1), (d2, n2)] (add_task t2 (add_task t1 a))) =
              invocations a @ [t1\<lparr>task_status := RUNNING\<rparr>, t2\<lparr>task_status := RUNNING\<rparr>] \<and>
            invocations (worker_loop [(d1, n1), (d2, n2)] (add_task t1 (add_task t2 a))) =
              invocations a @ [t1\<lparr>task_status := RUNNING\<rparr>, t2\<lparr>task_status := RUNNING\<rparr>]) \<and>
         (priority t1 = priority t2 \<longrightarrow>
            invocations (worker_loop [(d1, n1), (d2, n2)] (add_task t2 (add_task t1 a))) =
              invocations a @ [t1\<lparr>task_status := RUNNING\<rparr>, t2\<lparr>task_status := RUNNING\<rparr>])"
proof -
  have r: "is_running (add_task t2 (add_task t1 a))" "is_running (add_task t1 (add_task t2 a))"
    using assms(2) by (simp_all add: add_task_frame)
  show ?thesis
    using add_two_queue [OF assms(1), of t2 t1] worker_two [OF r(1)] worker_two [OF r(2)]
    by (simp add: add_task_frame)
qed

theorem higher_priority_first_witness:
  "map task_id (invocations (worker_loop [(1, 1), (1, 2)] (add_task task_low (add_task task_high worker)))) =
     [''high'', ''low''] \<and>
   map task_id (invocations (worker_loop [(1, 1), (1, 2)] (add_task task_high (add_task task_low worker)))) =
     [''high'', ''low''] \<and>
   map task_id (invocations (worker_loop [(1, 1), (1, 2)] (add_task task_late (add_task task_high worker)))) =
     [''high'', ''late'']"
proof -
  have q: "task_queue worker = []" and r: "is_running worker" and i: "invocations worker = []"
    by (simp_all add: worker_def start_def BaseAgent_def echo_class_def agent_info_def)
  have p: "priority task_high > priority task_low" "priority task_high = priority task_late"
    by (simp_all add: task_high_def task_low_def task_late_def AgentTask_def)
  have n: "task_id task_high = ''high''" "task_id task_low = ''low''" "task_id task_late = ''late''"
    by (simp_all add: task_high_def task_low_def task_late_def AgentTask_def)
  from higher_priority_first [OF q r, of task_low task_high 1 1 1 2]
    higher_priority_first [OF q r, of task_late task_high 1 1 1 2] p
  show ?thesis by (simp add: i n)
qed

section \<open>Registry and run control\<close>

text \<open>
  C7. Removing an agent id that the registry does not hold raises nothing and changes
  nothing but the log, which gets one warning: the registry, every agent in it and all
  workflow data are as before.
\<close>

theorem remove_missing_agent:
  assumes "\<not> has_key (agents orch) aid"
  shows "remove_agent aid orch =
           (None, orch\<lparr>orch_log := orch_log orch @ [(WARNING, ''Agent does not exist'', aid)]\<rparr>) \<and>
         agents (snd (remove_agent aid orch)) = agents orch"
  using assms by (simp add: remove_agent_def has_key_def warning_def split: option.splits)

theorem remove_missing_agent_witness:
  "remove_agent ''ghost'' (snd first_run) =
     (None, (snd first_run)\<lparr>orch_log := orch_log (snd first_run) @
        [(WARNING, ''Agent does not exist'', ''ghost'')]\<rparr>) \<and>
   agents (snd (remove_agent ''ghost'' (snd first_run))) = agents (snd first_run) \<and>
   map fst (agents (snd first_run)) = [''failing_A'', ''echo_B'']"
proof -
  have h: "\<not> has_key (agents (snd first_run)) ''ghost''"
    by code_simp
  have k: "map fst (agents (snd first_run)) = [''failing_A'', ''echo_B'']"
    by code_simp
  from remove_missing_agent [OF h] k show ?thesis by simp
qed

text \<open>
  C5. When a run of workflow \<open>wid\<close> is in flight, \<^verbatim>\<open>execute_workflow\<close> on \<open>wid\<close>
  raises the \<^verbatim>\<open>ValueError\<close> of a running workflow and leaves the whole orchestrator, the
  Run State of \<open>wid\<close> included, as it was.
\<close>

theorem execute_conflict:
  assumes "has_key (workflows orch) wid" and "has_key (running_workflows orch) wid"
  shows "execute_workflow limit t_start t_end wid input_data orch =
           (Inl (WorkflowRunning wid), orch) \<and>
         get_workflow_status wid (snd (execute_workflow limit t_start t_end wid input_data orch)) =
           get_workflow_status wid orch"
  using assms by (simp add: execute_workflow_def execute_begin_def)

theorem execute_conflict_witness:
  "execute_workflow 25 2 3 ''wf'' [(''x'', 9)] in_flight = (Inl (WorkflowRunning ''wf''), in_flight) \<and>
   get_workflow_status ''wf'' (snd (execute_workflow 25 2 3 ''wf'' [(''x'', 9)] in_flight)) =
     Some in_flight_state"
proof -
  have h: "has_key (workflows in_flight) ''wf''" "has_key (running_workflows in_flight) ''wf''"
    by code_simp+
  have s: "get_workflow_status ''wf'' in_flight = Some in_flight_state"
    by code_simp
  from execute_conflict [OF h, of 25 2 3 "[(''x'', 9)]"] s show ?thesis by simp
qed

lemma execute_begin_in_flight:
  assumes "execute_begin t_start wid input_data orch = (None, orch1)"
  shows "has_key (running_workflows orch1) wid \<and>
         (\<exists>state. map_of (workflow_states orch1) wid = Some state \<and>
            started_at state = Some t_start \<and> status state = WF_RUNNING)"
  using assms
  by (auto simp add: execute_begin_def info_def Let_def update_conv' has_key_def
      split: if_splits option.splits)

text \<open>
  C6. While a run of workflow \<open>wid\<close> is in flight, with Run State \<open>state\<close> (whatever
  steps have run so far) started at \<open>t_start\<close>, \<^verbatim>\<open>cancel_workflow\<close> called at the clock
  reading \<open>now\<close> raises nothing and leaves the Run State with status cancelled and
  completion time \<open>now\<close>, and otherwise as it was. The completion time is at or after the
  start time if the clock reading of the call is not earlier than the one taken at the
  start; the code reads the wall clock both times and nothing else orders them.
\<close>

theorem cancel_in_flight:
  assumes "has_key (running_workflows orch) wid"
    and "map_of (workflow_states orch) wid = Some state"
    and "started_at state = Some t_start"
  shows "fst (cancel_workflow now wid orch) = None \<and>
         get_workflow_status wid (snd (cancel_workflow now wid orch)) =
           Some (state\<lparr>status := WF_CANCELLED, completed_at := Some now\<rparr>) \<and>
         run_times wid (snd (cancel_workflow now wid orch)) =
           Some (WF_CANCELLED, Some t_start, Some now) \<and>
         (t_start \<le> now \<longrightarrow>
            (\<exists>state' t0 t1.
               get_workflow_status wid (snd (cancel_workflow now wid orch)) = Some state' \<and>
               status state' = WF_CANCELLED \<and>
               started_at state' = Some t0 \<and> completed_at state' = Some t1 \<and> t0 \<le> t1))"
  using assms
  by (simp add: cancel_workflow_def info_def Let_def update_conv' get_workflow_status_def
      run_times_def)

theorem cancel_in_flight_witness:
  "fst (cancel_workflow 2 ''wf'' in_flight) = None \<and>
   get_workflow_status ''wf'' (snd (cancel_workflow 2 ''wf'' in_flight)) =
     Some (in_flight_state\<lparr>status := WF_CANCELLED, completed_at := Some 2\<rparr>) \<and>
   run_times ''wf'' (snd (cancel_workflow 2 ''wf'' in_flight)) =
     Some (WF_CANCELLED, Some 1, Some 2) \<and>
   (\<exists>state' t0 t1.
      get_workflow_status ''wf'' (snd (cancel_workflow 2 ''wf'' in_flight)) = Some state' \<and>
      status state' = WF_CANCELLED \<and>
      started_at state' = Some t0 \<and> completed_at state' = Some t1 \<and> t0 \<le> t1)"
proof -
  have h: "has_key (running_workflows in_flight) ''wf''"
    "map_of (workflow_states in_flight) ''wf'' = Some in_flight_state"
    by code_simp+
  have t: "started_at in_flight_state = Some 1"
    by (simp add: in_flight_state_def)
  have le: "(1::nat) \<le> 2" by simp
  from cancel_in_flight [OF h t, of 2] le show ?thesis by blast
qed

text \<open>
  The run in flight was started at clock reading 1. A call of \<^verbatim>\<open>cancel_workflow\<close> that
  reads the clock as 0 (a wall clock that has been set back) stamps completion time 0,
  which is before the start time.
\<close>

theorem cancel_before_start_counterexample:
  "has_key (running_workflows in_flight) ''wf'' \<and>
   run_times ''wf'' in_flight = Some (WF_RUNNING, Some 1, None) \<and>
   fst (cancel_workflow 0 ''wf'' in_flight) = None \<and>
   run_times ''wf'' (snd (cancel_workflow 0 ''wf'' in_flight)) =
     Some (WF_CANCELLED, Some 1, Some 0) \<and>
   \<not> (1::nat) \<le> 0"
  by code_simp

text \<open>
  C10. For a workflow id with no run in flight, known or not, \<^verbatim>\<open>cancel_workflow\<close>
  raises nothing and changes nothing but the log, which gets one warning; the Run State
  of the id is as before.
\<close>

theorem cancel_not_running:
  assumes "\<not> has_key (running_workflows orch) wid"
  shows "cancel_workflow now wid orch =
           (None, orch\<lparr>orch_log := orch_log orch @ [(WARNING, ''Workflow is not running'', wid)]\<rparr>) \<and>
         get_workflow_status wid (snd (cancel_workflow now wid orch)) =
           get_workflow_status wid orch"
  using assms by (simp add: cancel_workflow_def warning_def get_workflow_status_def)

theorem cancel_not_running_witness:
  "cancel_workflow 5 ''wf'' (snd first_run) =
     (None, (snd first_run)\<lparr>orch_log := orch_log (snd first_run) @
        [(WARNING, ''Workflow is not running'', ''wf'')]\<rparr>) \<and>
   cancel_workflow 5 ''nope'' (snd first_run) =
     (None, (snd first_run)\<lparr>orch_log := orch_log (snd first_run) @
        [(WARNING, ''Workflow is not running'', ''nope'')]\<rparr>) \<and>
   map_option status (get_workflow_status ''wf'' (snd (cancel_workflow 5 ''wf'' (snd first_run)))) =
     Some WF_FAILED"
proof -
  have h: "\<not> has_key (running_workflows (snd first_run)) ''wf''"
    "\<not> has_key (running_workflows (snd first_run)) ''nope''"
    by code_simp+
  have s: "map_option status (get_workflow_status ''wf'' (snd first_run)) = Some WF_FAILED"
    by code_simp
  note c1 = cancel_not_running [OF h(1), of 5] and c2 = cancel_not_running [OF h(2), of 5]
  show ?thesis
  proof (intro conjI)
    show "cancel_workflow 5 ''wf'' (snd first_run) =
      (None, (snd first_run)\<lparr>orch_log := orch_log (snd first_run) @
        [(WARNING, ''Workflow is not running'', ''wf'')]\<rparr>)"
      by (rule conjunct1 [OF c1])
    show "cancel_workflow 5 ''nope'' (snd first_run) =
      (None, (snd first_run)\<lparr>orch_log := orch_log (snd first_run) @
        [(WARNING, ''Workflow is not running'', ''nope'')]\<rparr>)"
      by (rule conjunct1 [OF c2])
    show "map_option status
        (get_workflow_status ''wf'' (snd (cancel_workflow 5 ''wf'' (snd first_run)))) =
      Some WF_FAILED"
      by (simp only: conjunct2 [OF c1] s)
  qed
qed

section \<open>The step path and the agent's queue\<close>

lemma agent_frame_refl: "agent_frame (Some a) a"
  by (simp add: agent_frame_def)

lemma agents_frame_same: "agents orch' = agents orch \<Longrightarrow> agents_frame orch orch'"
  by (simp add: agents_frame_def agent_frame_refl split: option.splits)

lemma agents_frame_None:
  "agents_frame o1 o2 \<Longrightarrow> map_of (agents o2) k = None \<Longrightarrow> map_of (agents o1) k = None"
  unfolding agents_frame_def by (drule spec [of _ k]) simp

lemma agents_frame_Some:
  "agents_frame o1 o2 \<Longrightarrow> map_of (agents o2) k = Some a' \<Longrightarrow>
     agent_frame (map_of (agents o1) k) a'"
  unfolding agents_frame_def by (drule spec [of _ k]) simp

lemma agent_frame_trans:
  assumes "agent_frame x a'" and "agent_frame (Some a') a''"
  shows "agent_frame x a''"
proof -
  from assms(2) have f: "task_queue a'' = task_queue a'" "current_task a'' = current_task a'"
    "metrics a'' = metrics a'"
    and t: "take (length (invocations a')) (invocations a'') = invocations a'"
    and u: "list_all untouched (drop (length (invocations a')) (invocations a''))"
    by (simp_all add: agent_frame_def)
  define us where "us = drop (length (invocations a')) (invocations a'')"
  from t have i2: "invocations a'' = invocations a' @ us"
    unfolding us_def by (metis append_take_drop_id)
  show ?thesis
  proof (cases x)
    case None
    with assms(1) have "task_queue a' = []" "current_task a' = None"
      "metrics a' = initial_metrics" "list_all untouched (invocations a')"
      by (simp_all add: agent_frame_def)
    moreover from this(4) u have "list_all untouched (invocations a'')"
      unfolding i2 us_def [symmetric] by simp
    ultimately show ?thesis using f None by (simp add: agent_frame_def)
  next
    case (Some a)
    with assms(1) have g: "task_queue a' = task_queue a" "current_task a' = current_task a"
      "metrics a' = metrics a"
      and t1: "take (length (invocations a)) (invocations a') = invocations a"
      and u1: "list_all untouched (drop (length (invocations a)) (invocations a'))"
      by (simp_all add: agent_frame_def)
    define ts where "ts = drop (length (invocations a)) (invocations a')"
    from t1 have i1: "invocations a' = invocations a @ ts"
      unfolding ts_def by (metis append_take_drop_id)
    have i: "invocations a'' = invocations a @ ts @ us"
      using i1 i2 by simp
    have "list_all untouched (ts @ us)"
      using u u1 unfolding ts_def us_def by simp
    with i have "take (length (invocations a)) (invocations a'') = invocations a"
      "list_all untouched (drop (length (invocations a)) (invocations a''))"
      by simp_all
    with f g Some show ?thesis by (simp add: agent_frame_def)
  qed
qed

lemma agents_frame_trans:
  assumes "agents_frame o1 o2" and "agents_frame o2 o3"
  shows "agents_frame o1 o3"
  unfolding agents_frame_def
proof
  fix k
  show "case map_of (agents o3) k of None \<Rightarrow> map_of (agents o1) k = None
        | Some a' \<Rightarrow> agent_frame (map_of (agents o1) k) a'"
  proof (cases "map_of (agents o3) k")
    case None
    with assms(2) have "map_of (agents o2) k = None" by (rule agents_frame_None)
    with assms(1) have "map_of (agents o1) k = None" by (rule agents_frame_None)
    with None show ?thesis by simp
  next
    case (Some a3)
    with assms(2) have 23: "agent_frame (map_of (agents o2) k) a3" by (rule agents_frame_Some)
    show ?thesis
    proof (cases "map_of (agents o2) k")
      case None
      with assms(1) have "map_of (agents o1) k = None" by (rule agents_frame_None)
      with 23 None Some show ?thesis by simp
    next
      case (Some a2)
      with assms(1) have "agent_frame (map_of (agents o1) k) a2" by (rule agents_frame_Some)
      moreover from 23 Some have "agent_frame (Some a2) a3" by simp
      ultimately have "agent_frame (map_of (agents o1) k) a3" by (rule agent_frame_trans)
      with \<open>map_of (agents o3) k = Some a3\<close> show ?thesis by simp
    qed
  qed
qed

lemma agents_frame_cong:
  "agents_frame o1 o2 \<Longrightarrow> agents o3 = agents o2 \<Longrightarrow> agents_frame o1 o3"
  by (simp add: agents_frame_def)

lemma agents_frame_cong_left:
  "agents_frame o1 o2 \<Longrightarrow> agents o0 = agents o1 \<Longrightarrow> agents_frame o0 o2"
  by (simp add: agents_frame_def cong: option.case_cong)

lemma new_agent_fields:
  "task_queue (snd (start now (BaseAgent c now aid nm caps cfg))) = []"
  "current_task (snd (start now (BaseAgent c now aid nm caps cfg))) = None"
  "metrics (snd (start now (BaseAgent c now aid nm caps cfg))) = initial_metrics"
  "invocations (snd (start now (BaseAgent c now aid nm caps cfg))) = []"
  by (simp_all add: start_def BaseAgent_def agent_info_def agent_warning_def agent_error_def
      split: option.splits)

lemma agents_frame_add:
  assumes "map_of (agents orch) k = None"
    and "task_queue a = []" "current_task a = None" "metrics a = initial_metrics"
    and "invocations a = []"
  shows "agents_frame orch (orch\<lparr>agents := AList.update k a (agents orch)\<rparr>)"
  using assms
  by (simp add: agents_frame_def update_conv' agent_frame_def split: option.splits)

lemma create_agent_frame:
  assumes "create_agent now aid ty nm caps cfg orch = (ra, orch')"
  shows "agents_frame orch orch'"
proof (cases "map_of (agent_types orch) ty")
  case None
  with assms show ?thesis by (auto simp: create_agent_def agents_frame_same)
next
  case (Some c)
  show ?thesis
  proof (cases "has_key (agents orch) aid")
    case True
    with assms Some show ?thesis by (auto simp: create_agent_def agents_frame_same)
  next
    case False
    then have n: "map_of (agents orch) aid = None"
      by (simp add: has_key_def split: option.splits)
    let ?a = "snd (start now (BaseAgent c now aid nm caps cfg))"
    let ?o1 = "orch\<lparr>agents := AList.update aid ?a (agents orch)\<rparr>"
    have fr: "agents_frame orch ?o1"
      using n by (rule agents_frame_add) (simp_all add: new_agent_fields)
    have ag: "agents orch' = agents ?o1"
      using assms Some False
      by (auto simp: create_agent_def Let_def split_beta split: option.splits)
    from fr ag show ?thesis by (rule agents_frame_cong)
  qed
qed

lemma get_or_create_agent_frame:
  assumes "get_or_create_agent now ty sid orch = (ra, orch')"
  shows "agents_frame orch orch'"
proof (cases "map_of (agents orch) (agent_key ty sid)")
  case None
  with assms have
    "create_agent now (agent_key ty sid) ty (ty @ '' for '' @ sid) [] (Some []) orch = (ra, orch')"
    by (simp add: get_or_create_agent_def)
  then show ?thesis by (rule create_agent_frame)
next
  case (Some a)
  with assms show ?thesis by (auto simp: get_or_create_agent_def agents_frame_same)
qed

lemma agents_frame_invoke:
  assumes "map_of (agents orch) k = Some a" and "untouched t"
  shows "agents_frame orch (orch\<lparr>agents := AList.update k (snd (invoke a t)) (agents orch)\<rparr>)"
  using assms
  by (simp add: agents_frame_def update_conv' agent_frame_def invoke_def split: option.splits)

lemma untouched_AgentTask: "untouched (AgentTask i ty p)"
  by (simp add: untouched_def AgentTask_def)

lemma attempt_frame: "agents_frame orch (fst (snd (attempt now step orch state)))"
proof (cases "check_conditions (conditions step) (run_context state)")
  case False
  then show ?thesis by (simp add: attempt_def Let_def agents_frame_same)
next
  case True
  let ?o1 = "info ''Start executing step'' (step_id step) orch"
  obtain ra orch2 where
    g: "get_or_create_agent now (agent_type step) (step_id step) ?o1 = (ra, orch2)"
    by (cases "get_or_create_agent now (agent_type step) (step_id step) ?o1")
  from g have "agents_frame ?o1 orch2" by (rule get_or_create_agent_frame)
  then have f: "agents_frame orch orch2" by (rule agents_frame_cong_left) simp
  show ?thesis
  proof (cases ra)
    case (Inl e)
    with True g f show ?thesis by (simp add: attempt_def Let_def)
  next
    case (Inr agent)
    let ?t = "AgentTask (workflow_id state @ ''_'' @ step_id step) (step_name step)
                (prepare_input (input_mapping step) (run_context state))"
    let ?o3 = "orch2\<lparr>agents := AList.update (agent_key (agent_type step) (step_id step))
                 (snd (invoke agent ?t)) (agents orch2)\<rparr>"
    from g Inr have "map_of (agents orch2) (agent_key (agent_type step) (step_id step)) = Some agent"
      by (simp add: get_or_create_agent_registers)
    then have "agents_frame orch2 ?o3"
      using untouched_AgentTask by (rule agents_frame_invoke)
    with f have f3: "agents_frame orch ?o3" by (rule agents_frame_trans)
    have "agents (fst (snd (attempt now step orch state))) = agents ?o3"
      using True g Inr by (simp add: attempt_def Let_def split_beta split: sum.splits)
    with f3 show ?thesis by (rule agents_frame_cong)
  qed
qed

lemma step_function_frame: "agents_frame orch (fst (snd (step_function now step orch state)))"
proof (induction now step orch state rule: step_function.induct)
  case (1 now step orch state)
  obtain r orch1 state1 where a: "attempt now step orch state = (r, orch1, state1)"
    by (cases "attempt now step orch state")
  from attempt_frame [of orch now step state] a have f1: "agents_frame orch orch1" by simp
  show ?case
  proof (cases r)
    case None
    with a f1 show ?thesis by (subst step_function.simps) simp
  next
    case (Some e)
    let ?step1 = "step\<lparr>retry_count := retry_count step + 1\<rparr>"
    let ?o2 = "log_error ''Step execution failed'' (step_id step) orch1"
    show ?thesis
    proof (cases "retry_count ?step1 \<le> max_retries ?step1")
      case True
      let ?o3 = "info ''Retrying step'' (step_id step) ?o2"
      have "agents_frame ?o3 (fst (snd (step_function now ?step1 ?o3 state1)))"
        using a Some True by (intro "1.IH") simp_all
      then have "agents_frame orch1 (fst (snd (step_function now ?step1 ?o3 state1)))"
        by (rule agents_frame_cong_left) simp
      with f1 have "agents_frame orch (fst (snd (step_function now ?step1 ?o3 state1)))"
        by (rule agents_frame_trans)
      moreover have "step_function now step orch state = step_function now ?step1 ?o3 state1"
        using a Some True by (subst step_function.simps) (simp add: Let_def)
      ultimately show ?thesis by simp
    next
      case False
      have "agents (fst (snd (step_function now step orch state))) = agents orch1"
        using a Some False by (subst step_function.simps) (simp add: Let_def)
      with f1 show ?thesis by (rule agents_frame_cong)
    qed
  qed
qed

lemma run_round_frame: "agents_frame orch (snd (snd (run_round now ns g orch vals)))"
proof (induction ns arbitrary: g orch)
  case Nil
  then show ?case by (simp add: agents_frame_same)
next
  case (Cons n ns)
  show ?case
  proof (cases "map_of (nodes g) n")
    case None
    then show ?thesis by (simp add: agents_frame_same)
  next
    case (Some step)
    obtain step1 orch1 vals1 where
      s: "step_function now step orch vals = (step1, orch1, vals1)"
      by (cases "step_function now step orch vals")
    from step_function_frame [of orch now step vals] s have "agents_frame orch orch1" by simp
    moreover have "agents_frame orch1
        (snd (snd (run_round now ns (g\<lparr>nodes := AList.update n step1 (nodes g)\<rparr>)
           orch1 vals)))"
      by (rule Cons.IH)
    ultimately show ?thesis using Some s by (simp add: agents_frame_trans)
  qed
qed

lemma run_graph_frame:
  "agents_frame orch (fst (snd (snd (run_graph limit now ns g orch vals))))"
proof (induction limit now ns g orch vals rule: run_graph.induct)
  case (1 limit now g orch vals)
  then show ?case by (simp add: agents_frame_same)
next
  case (2 now n ns g orch vals)
  then show ?case by (simp add: agents_frame_same)
next
  case (3 limit now n g orch vals)
  show ?case
  proof (cases "map_of (nodes g) n")
    case None
    then show ?thesis by (simp add: agents_frame_same)
  next
    case (Some step)
    obtain step1 orch1 vals1 where
      s: "step_function now step orch vals = (step1, orch1, vals1)"
      by (cases "step_function now step orch vals")
    from step_function_frame [of orch now step vals] s have f1: "agents_frame orch orch1"
      by simp
    have "agents_frame orch1 (fst (snd (snd (run_graph limit now (remdups (successors g n))
            (g\<lparr>nodes := AList.update n step1 (nodes g)\<rparr>) orch1 vals1))))"
      by (rule "3.IH" [OF Some s [symmetric] refl])
    with f1 have "agents_frame orch (fst (snd (snd (run_graph limit now
            (remdups (successors g n)) (g\<lparr>nodes := AList.update n step1 (nodes g)\<rparr>)
            orch1 vals1))))"
      by (rule agents_frame_trans)
    with Some s show ?thesis by simp
  qed
next
  case (4 limit now n m ns g orch vals)
  obtain r g1 orch1 where rr: "run_round now (n # m # ns) g orch vals = (r, g1, orch1)"
    by (cases "run_round now (n # m # ns) g orch vals")
  from run_round_frame [of orch now "n # m # ns" g vals] rr have "agents_frame orch orch1"
    by simp
  with rr show ?case by (cases r) simp_all
qed

lemma run_workflow_frame: "agents_frame orch (snd (run_workflow limit now wid orch))"
proof (cases "map_of (workflows orch) wid")
  case None
  then show ?thesis by (simp add: run_workflow_def agents_frame_same)
next
  case g: (Some g)
  show ?thesis
  proof (cases "map_of (workflow_states orch) wid")
    case None
    with g show ?thesis by (simp add: run_workflow_def agents_frame_same)
  next
    case (Some state)
    from run_graph_frame
    have "agents_frame orch (fst (snd (snd (ainvoke limit now g orch state))))"
      unfolding ainvoke_def .
    then show ?thesis
      using g Some
      by (simp add: run_workflow_def split_beta) (erule agents_frame_cong, simp)
  qed
qed

lemma execute_begin_agents: "agents (snd (execute_begin t wid input_data orch)) = agents orch"
  by (simp add: execute_begin_def Let_def split: option.splits)

lemma execute_failed_agents: "agents (snd (execute_failed t wid e orch)) = agents orch"
  by (simp add: execute_failed_def Let_def split: option.splits)

lemma execute_end_agents: "agents (snd (execute_end t wid r orch)) = agents orch"
  by (simp add: execute_end_def execute_failed_agents split: sum.splits)

lemma execute_workflow_frame:
  "agents_frame orch (snd (execute_workflow limit t_start t_end wid input_data orch))"
proof -
  obtain r orch1 where b: "execute_begin t_start wid input_data orch = (r, orch1)"
    by (cases "execute_begin t_start wid input_data orch")
  from execute_begin_agents [of t_start wid input_data orch] b
  have a1: "agents orch1 = agents orch"
    by simp
  show ?thesis
  proof (cases r)
    case (Some e)
    with b a1 show ?thesis by (simp add: execute_workflow_def agents_frame_same)
  next
    case None
    have "agents_frame orch1 (snd (run_workflow limit t_start wid orch1))"
      by (rule run_workflow_frame)
    then have "agents_frame orch (snd (run_workflow limit t_start wid orch1))"
      using a1 [symmetric] by (rule agents_frame_cong_left)
    then have "agents_frame orch
        (snd (execute_end t_end wid (fst (run_workflow limit t_start wid orch1))
                 (snd (run_workflow limit t_start wid orch1))))"
      by (rule agents_frame_cong) (rule execute_end_agents)
    with b None show ?thesis by (simp add: execute_workflow_def split_beta)
  qed
qed

lemma agents_frame_existing:
  assumes "agents_frame orch orch'" and "map_of (agents orch) k = Some a"
  shows "\<exists>a'. map_of (agents orch') k = Some a' \<and>
           task_queue a' = task_queue a \<and> current_task a' = current_task a \<and>
           metrics a' = metrics a \<and>
           take (length (invocations a)) (invocations a') = invocations a \<and>
           list_all untouched (drop (length (invocations a)) (invocations a'))"
proof (cases "map_of (agents orch') k")
  case None
  with assms(1) have "map_of (agents orch) k = None" by (rule agents_frame_None)
  with assms(2) show ?thesis by simp
next
  case (Some a')
  with assms(1) have "agent_frame (map_of (agents orch) k) a'" by (rule agents_frame_Some)
  with assms(2) Some show ?thesis by (simp add: agent_frame_def)
qed

text \<open>
  C9. Let \<open>a\<close> be an agent of the registry. After \<^verbatim>\<open>step_function\<close> has run a step,
  retries included, and after a whole run of a workflow by \<^verbatim>\<open>execute_workflow\<close>, the
  agent is still registered and its queue, its current task and its metrics are what they
  were; its capability has been called only with tasks as their constructor left them
  (status idle, no result, no error), added to the calls made before.
\<close>

theorem step_path_leaves_queue_and_metrics:
  assumes "map_of (agents orch) k = Some a"
  shows "(\<exists>a'. map_of (agents (fst (snd (step_function now step orch state)))) k = Some a' \<and>
            task_queue a' = task_queue a \<and> current_task a' = current_task a \<and>
            metrics a' = metrics a \<and>
            take (length (invocations a)) (invocations a') = invocations a \<and>
            list_all untouched (drop (length (invocations a)) (invocations a'))) \<and>
         (\<exists>a'. map_of (agents (snd (execute_workflow limit t_start t_end wid input_data orch))) k =
              Some a' \<and>
            task_queue a' = task_queue a \<and> current_task a' = current_task a \<and>
            metrics a' = metrics a \<and>
            take (length (invocations a)) (invocations a') = invocations a \<and>
            list_all untouched (drop (length (invocations a)) (invocations a')))"
  using agents_frame_existing [OF step_function_frame assms]
    agents_frame_existing [OF execute_workflow_frame assms]
  by (rule conjI)

theorem step_path_leaves_queue_and_metrics_witness:
  "map_option (\<lambda>a. (task_queue a, current_task a, metrics a, length (invocations a)))
     (get_agent ''echo_B'' (snd second_run)) =
   Some ([], None, initial_metrics, 2) \<and>
   map_option (\<lambda>a. (task_queue a, current_task a, metrics a, length (invocations a)))
     (get_agent ''echo_B'' (snd first_run)) =
   Some ([], None, initial_metrics, 1) \<and>
   (\<exists>a'. get_agent ''echo_B'' (snd second_run) = Some a' \<and> list_all untouched (invocations a'))"
proof -
  have before: "map_option (\<lambda>a. (task_queue a, current_task a, metrics a, length (invocations a)))
     (get_agent ''echo_B'' (snd first_run)) = Some ([], None, initial_metrics, 1)"
    by code_simp
  then obtain a where a: "map_of (agents (snd first_run)) ''echo_B'' = Some a"
    and fa: "task_queue a = []" "current_task a = None" "metrics a = initial_metrics"
      "length (invocations a) = 1"
    by (auto simp: get_agent_def)
  have u0: "list_all untouched (invocations a)"
  proof -
    have "map_option (\<lambda>a. list_all untouched (invocations a))
            (get_agent ''echo_B'' (snd first_run)) = Some True"
      by code_simp
    with a show ?thesis by (simp add: get_agent_def)
  qed
  from step_path_leaves_queue_and_metrics [OF a, of 3 step_B in_flight_state 25 3 4 "''wf''"
      "[(''x'', 3)]"]
  obtain a' where a': "map_of (agents (snd second_run)) ''echo_B'' = Some a'"
    and fa': "task_queue a' = task_queue a" "current_task a' = current_task a"
      "metrics a' = metrics a"
    and pre: "take (length (invocations a)) (invocations a') = invocations a"
    and u: "list_all untouched (drop (length (invocations a)) (invocations a'))"
    unfolding second_run_def by blast
  have len: "map_option (\<lambda>a. length (invocations a)) (get_agent ''echo_B'' (snd second_run)) = Some 2"
    by code_simp
  with a' have l2: "length (invocations a') = 2" by (simp add: get_agent_def)
  have "invocations a' = invocations a @ drop (length (invocations a)) (invocations a')"
    using pre by (metis append_take_drop_id)
  with u0 u have "list_all untouched (invocations a')"
    by (metis list_all_append)
  with a' fa fa' l2 before show ?thesis by (simp add: get_agent_def)
qed

section \<open>Conditions of a step\<close>

lemma check_conditions_met:
  "check_conditions conds ctx \<Longrightarrow> (key, expected) \<in> set conds \<Longrightarrow>
     map_of ctx key = Some expected"
proof (induction conds)
  case Nil
  then show ?case by simp
next
  case (Cons c conds)
  obtain k e where c: "c = (k, e)" by (cases c)
  from Cons.prems(1) have here: "map_of ctx k = Some e" and rest: "check_conditions conds ctx"
    unfolding c by (simp_all split: if_splits)
  from Cons.prems(2) consider "(key, expected) = (k, e)" | "(key, expected) \<in> set conds"
    unfolding c by auto
  then show ?case
  proof cases
    case 1
    with here show ?thesis by simp
  next
    case 2
    with rest show ?thesis by (rule Cons.IH)
  qed
qed

lemma check_conditions_unmet:
  "(key, expected) \<in> set conds \<Longrightarrow> map_of ctx key \<noteq> Some expected \<Longrightarrow>
     \<not> check_conditions conds ctx"
proof
  assume "(key, expected) \<in> set conds" "map_of ctx key \<noteq> Some expected"
    "check_conditions conds ctx"
  from this(3) this(1) have "map_of ctx key = Some expected" by (rule check_conditions_met)
  with \<open>map_of ctx key \<noteq> Some expected\<close> show False by contradiction
qed

lemma attempt_skip:
  assumes "\<not> check_conditions (conditions step) (run_context state)"
  shows "attempt now step orch state =
          (None,
           info ''Step conditions not met, skipping'' (step_id step)
             (info ''Start executing step'' (step_id step) orch),
           state\<lparr>current_step := Some (step_id step),
                 completed_steps := completed_steps state @ [step_id step]\<rparr>)"
  using assms by (simp add: attempt_def Let_def)

lemma step_function_skip:
  assumes "\<not> check_conditions (conditions step) (run_context state)"
  shows "step_function now step orch state =
          (step,
           info ''Step conditions not met, skipping'' (step_id step)
             (info ''Start executing step'' (step_id step) orch),
           state\<lparr>current_step := Some (step_id step),
                 completed_steps := completed_steps state @ [step_id step]\<rparr>)"
  by (subst step_function.simps) (simp add: attempt_skip [OF assms])

lemma attempt_invokes:
  assumes c: "check_conditions (conditions step) (run_context state)"
    and r: "\<not> isl (fst (get_or_create_agent now (agent_type step) (step_id step)
                  (info ''Start executing step'' (step_id step) orch)))"
  shows "calls (agent_key (agent_type step) (step_id step))
           (fst (snd (attempt now step orch state))) =
         calls (agent_key (agent_type step) (step_id step))
           (snd (get_or_create_agent now (agent_type step) (step_id step)
              (info ''Start executing step'' (step_id step) orch))) @
         [(workflow_id state @ ''_'' @ step_id step,
           prepare_input (input_mapping step) (run_context state))]"
proof -
  let ?k = "agent_key (agent_type step) (step_id step)"
  obtain ra orch2 where g: "get_or_create_agent now (agent_type step) (step_id step)
      (info ''Start executing step'' (step_id step) orch) = (ra, orch2)"
    by (cases "get_or_create_agent now (agent_type step) (step_id step)
      (info ''Start executing step'' (step_id step) orch)")
  with r obtain agent where ra: "ra = Inr agent" by (cases ra) simp_all
  from g ra have m: "map_of (agents orch2) ?k = Some agent"
    by (simp add: get_or_create_agent_registers)
  have "calls ?k (fst (snd (attempt now step orch state))) =
        calls ?k orch2 @ [(workflow_id state @ ''_'' @ step_id step,
           prepare_input (input_mapping step) (run_context state))]"
    using c g ra m
    by (simp add: attempt_def Let_def invoke_def calls_def get_agent_def update_conv'
        AgentTask_def split: sum.splits)
  with g show ?thesis by simp
qed

lemma calls_prefix:
  assumes "agents_frame o1 o2"
  shows "take (length (calls k o1)) (calls k o2) = calls k o1"
proof (cases "map_of (agents o1) k")
  case None
  then show ?thesis by (simp add: calls_def get_agent_def)
next
  case (Some a)
  from agents_frame_existing [OF assms Some] obtain a' where
    a': "map_of (agents o2) k = Some a'"
    and t: "take (length (invocations a)) (invocations a') = invocations a"
    by blast
  have "take (length (invocations a)) (map (\<lambda>t. (task_id t, payload t)) (invocations a')) =
        map (\<lambda>t. (task_id t, payload t)) (invocations a)"
    unfolding take_map t ..
  with Some a' show ?thesis by (simp add: calls_def get_agent_def)
qed

lemma calls_length_mono:
  assumes "agents_frame o1 o2"
  shows "length (calls k o1) \<le> length (calls k o2)"
proof -
  have "length (take (length (calls k o1)) (calls k o2)) = length (calls k o1)"
    unfolding calls_prefix [OF assms] ..
  then show ?thesis by simp
qed

lemma step_function_after_attempt:
  "agents_frame (fst (snd (attempt now step orch state)))
     (fst (snd (step_function now step orch state)))"
proof -
  obtain r orch1 state1 where a: "attempt now step orch state = (r, orch1, state1)"
    by (cases "attempt now step orch state")
  show ?thesis
  proof (cases r)
    case None
    with a show ?thesis
      by (subst step_function.simps) (simp add: agents_frame_same)
  next
    case (Some e)
    let ?step1 = "step\<lparr>retry_count := retry_count step + 1\<rparr>"
    let ?o3 = "info ''Retrying step'' (step_id step)
                 (log_error ''Step execution failed'' (step_id step) orch1)"
    show ?thesis
    proof (cases "retry_count ?step1 \<le> max_retries ?step1")
      case True
      have "agents_frame ?o3 (fst (snd (step_function now ?step1 ?o3 state1)))"
        by (rule step_function_frame)
      then have "agents_frame orch1 (fst (snd (step_function now ?step1 ?o3 state1)))"
        by (rule agents_frame_cong_left) simp
      moreover have "step_function now step orch state = step_function now ?step1 ?o3 state1"
        using a Some True by (subst step_function.simps) (simp add: Let_def)
      ultimately show ?thesis using a by simp
    next
      case False
      have "agents (fst (snd (step_function now step orch state))) = agents orch1"
        using a Some False by (subst step_function.simps) (simp add: Let_def)
      then show ?thesis using a by (simp add: agents_frame_same)
    qed
  qed
qed

lemma step_function_first_call:
  assumes "check_conditions (conditions step) (run_context state)"
    and "\<not> isl (fst (get_or_create_agent now (agent_type step) (step_id step)
                  (info ''Start executing step'' (step_id step) orch)))"
  shows "take (length (calls (agent_key (agent_type step) (step_id step))
                 (snd (get_or_create_agent now (agent_type step) (step_id step)
                    (info ''Start executing step'' (step_id step) orch)))) + 1)
           (calls (agent_key (agent_type step) (step_id step))
              (fst (snd (step_function now step orch state)))) =
         calls (agent_key (agent_type step) (step_id step))
           (snd (get_or_create_agent now (agent_type step) (step_id step)
              (info ''Start executing step'' (step_id step) orch))) @
         [(workflow_id state @ ''_'' @ step_id step,
           prepare_input (input_mapping step) (run_context state))]"
proof -
  let ?k = "agent_key (agent_type step) (step_id step)"
  let ?c0 = "calls ?k (snd (get_or_create_agent now (agent_type step) (step_id step)
               (info ''Start executing step'' (step_id step) orch)))"
  let ?entry = "(workflow_id state @ ''_'' @ step_id step,
                 prepare_input (input_mapping step) (run_context state))"
  have c: "calls ?k (fst (snd (attempt now step orch state))) = ?c0 @ [?entry]"
    using assms by (rule attempt_invokes)
  have "take (length (calls ?k (fst (snd (attempt now step orch state)))))
          (calls ?k (fst (snd (step_function now step orch state)))) =
        calls ?k (fst (snd (attempt now step orch state)))"
    using step_function_after_attempt by (rule calls_prefix)
  then show ?thesis unfolding c by simp
qed

lemma attempt_outcome:
  assumes c: "check_conditions (conditions step) (run_context state)"
  shows "(fst (attempt now step orch state) = None \<longrightarrow>
            completed_steps (snd (snd (attempt now step orch state))) =
              completed_steps state @ [step_id step] \<and>
            failed_steps (snd (snd (attempt now step orch state))) = failed_steps state \<and>
            has_key (results (snd (snd (attempt now step orch state)))) (step_id step) \<and>
            length (calls (agent_key (agent_type step) (step_id step)) orch) <
              length (calls (agent_key (agent_type step) (step_id step))
                (fst (snd (attempt now step orch state))))) \<and>
         (fst (attempt now step orch state) \<noteq> None \<longrightarrow>
            snd (snd (attempt now step orch state)) =
              state\<lparr>current_step := Some (step_id step)\<rparr>)"
proof -
  let ?k = "agent_key (agent_type step) (step_id step)"
  let ?o1 = "info ''Start executing step'' (step_id step) orch"
  obtain ra orch2 where
    g: "get_or_create_agent now (agent_type step) (step_id step) ?o1 = (ra, orch2)"
    by (cases "get_or_create_agent now (agent_type step) (step_id step) ?o1")
  show ?thesis
  proof (cases ra)
    case (Inl e)
    with c g show ?thesis by (simp add: attempt_def Let_def)
  next
    case (Inr agent)
    let ?t = "AgentTask (workflow_id state @ ''_'' @ step_id step) (step_name step)
                (prepare_input (input_mapping step) (run_context state))"
    from g have "agents_frame ?o1 orch2" by (rule get_or_create_agent_frame)
    then have "length (calls ?k ?o1) \<le> length (calls ?k orch2)" by (rule calls_length_mono)
    then have l0: "length (calls ?k orch) \<le> length (calls ?k orch2)" by simp
    have "\<not> isl (fst (get_or_create_agent now (agent_type step) (step_id step) ?o1))"
      using g Inr by simp
    with c have "calls ?k (fst (snd (attempt now step orch state))) =
        calls ?k (snd (get_or_create_agent now (agent_type step) (step_id step) ?o1)) @
        [(workflow_id state @ ''_'' @ step_id step,
          prepare_input (input_mapping step) (run_context state))]"
      by (rule attempt_invokes)
    with g l0 have l: "length (calls ?k orch) <
        length (calls ?k (fst (snd (attempt now step orch state))))"
      by simp
    show ?thesis
    proof (cases "fst (invoke agent ?t)")
      case (Inl e)
      with c g Inr show ?thesis
        by (simp add: attempt_def Let_def split_beta)
    next
      case r: (Inr result)
      have "fst (attempt now step orch state) = None"
        and "completed_steps (snd (snd (attempt now step orch state))) =
              completed_steps state @ [step_id step]"
        and "failed_steps (snd (snd (attempt now step orch state))) = failed_steps state"
        and "has_key (results (snd (snd (attempt now step orch state)))) (step_id step)"
        using c g Inr r
        by (simp_all add: attempt_def Let_def split_beta has_key_def update_conv')
      with l show ?thesis by simp
    qed
  qed
qed

lemma step_function_runs:
  "conditions step = [] \<Longrightarrow>
   (completed_steps (snd (snd (step_function now step orch state))) =
      completed_steps state @ [step_id step] \<and>
    failed_steps (snd (snd (step_function now step orch state))) = failed_steps state \<and>
    has_key (results (snd (snd (step_function now step orch state)))) (step_id step) \<and>
    length (calls (agent_key (agent_type step) (step_id step)) orch) <
      length (calls (agent_key (agent_type step) (step_id step))
        (fst (snd (step_function now step orch state))))) \<or>
   (failed_steps (snd (snd (step_function now step orch state))) =
      failed_steps state @ [step_id step] \<and>
    status (snd (snd (step_function now step orch state))) = WF_FAILED \<and>
    completed_steps (snd (snd (step_function now step orch state))) = completed_steps state)"
proof (induction now step orch state rule: step_function.induct)
  case (1 now step orch state)
  let ?k = "agent_key (agent_type step) (step_id step)"
  have c: "check_conditions (conditions step) (run_context state)"
    using "1.prems" by simp
  obtain r orch1 state1 where a: "attempt now step orch state = (r, orch1, state1)"
    by (cases "attempt now step orch state")
  note out = attempt_outcome [OF c, of now orch]
  show ?case
  proof (cases r)
    case None
    have eq: "step_function now step orch state = (step, orch1, state1)"
      using a None by (subst step_function.simps) simp
    from out a None show ?thesis unfolding eq by simp
  next
    case (Some e)
    from out a Some have s1: "state1 = state\<lparr>current_step := Some (step_id step)\<rparr>"
      by simp
    let ?step1 = "step\<lparr>retry_count := retry_count step + 1\<rparr>"
    let ?o3 = "info ''Retrying step'' (step_id step)
                 (log_error ''Step execution failed'' (step_id step) orch1)"
    show ?thesis
    proof (cases "retry_count ?step1 \<le> max_retries ?step1")
      case True
      have eq: "step_function now step orch state = step_function now ?step1 ?o3 state1"
        using a Some True by (subst step_function.simps) (simp add: Let_def)
      have c1: "conditions ?step1 = []" using "1.prems" by simp
      note ih = "1.IH" [OF a [symmetric] Some refl refl refl True c1]
      from attempt_frame [of orch now step state] a have "agents_frame orch orch1" by simp
      then have "length (calls ?k orch) \<le> length (calls ?k orch1)"
        by (rule calls_length_mono)
      then have l: "length (calls ?k orch) \<le> length (calls ?k ?o3)" by simp
      from ih l show ?thesis unfolding eq s1 by auto
    next
      case False
      have eq: "step_function now step orch state =
          (?step1, log_error ''Step execution failed'' (step_id step) orch1,
           state1\<lparr>failed_steps := failed_steps state1 @ [step_id ?step1], status := WF_FAILED,
                  error := Some e\<rparr>)"
        using a Some False by (subst step_function.simps) (simp add: Let_def)
      show ?thesis unfolding eq s1 by simp
    qed
  qed
qed

text \<open>
  C3. If the condition set of a step has a key that the run context lacks or maps to
  another value than the expected one, \<^verbatim>\<open>step_function\<close> returns with the step id
  recorded as current and appended to the completed steps and two log records written,
  and with nothing else changed: the registry of agents (so no capability was invoked),
  the context and the result store are as before. With an empty condition set the check
  passes and \<^verbatim>\<open>step_function\<close> executes the step. Once the step's agent is resolved, the
  first call it makes of the agent's capability is the one of its first attempt, with the
  input built from the context. And in every case it ends in one of two ways: the
  capability has been called and has returned, the result is stored under the step id and
  the step is recorded as completed; or the step is recorded as failed and not as
  completed. It is never passed over.
\<close>

theorem unmet_condition_skips:
  "((key, expected) \<in> set (conditions step) \<and>
    map_of (run_context state) key \<noteq> Some expected \<longrightarrow>
      step_function now step orch state =
        (step,
         info ''Step conditions not met, skipping'' (step_id step)
           (info ''Start executing step'' (step_id step) orch),
         state\<lparr>current_step := Some (step_id step),
               completed_steps := completed_steps state @ [step_id step]\<rparr>) \<and>
      agents (fst (snd (step_function now step orch state))) = agents orch \<and>
      run_context (snd (snd (step_function now step orch state))) = run_context state \<and>
      results (snd (snd (step_function now step orch state))) = results state \<and>
      completed_steps (snd (snd (step_function now step orch state))) =
        completed_steps state @ [step_id step]) \<and>
   (conditions step = [] \<longrightarrow> check_conditions (conditions step) (run_context state)) \<and>
   (conditions step = [] \<and>
    \<not> isl (fst (get_or_create_agent now (agent_type step) (step_id step)
              (info ''Start executing step'' (step_id step) orch))) \<longrightarrow>
      calls (agent_key (agent_type step) (step_id step))
        (fst (snd (attempt now step orch state))) =
      calls (agent_key (agent_type step) (step_id step))
        (snd (get_or_create_agent now (agent_type step) (step_id step)
           (info ''Start executing step'' (step_id step) orch))) @
      [(workflow_id state @ ''_'' @ step_id step,
        prepare_input (input_mapping step) (run_context state))] \<and>
      take (length (calls (agent_key (agent_type step) (step_id step))
                 (snd (get_or_create_agent now (agent_type step) (step_id step)
                    (info ''Start executing step'' (step_id step) orch)))) + 1)
        (calls (agent_key (agent_type step) (step_id step))
           (fst (snd (step_function now step orch state)))) =
      calls (agent_key (agent_type step) (step_id step))
        (snd (get_or_create_agent now (agent_type step) (step_id step)
           (info ''Start executing step'' (step_id step) orch))) @
      [(workflow_id state @ ''_'' @ step_id step,
        prepare_input (input_mapping step) (run_context state))]) \<and>
   (conditions step = [] \<longrightarrow>
      (completed_steps (snd (snd (step_function now step orch state))) =
         completed_steps state @ [step_id step] \<and>
       failed_steps (snd (snd (step_function now step orch state))) = failed_steps state \<and>
       has_key (results (snd (snd (step_function now step orch state)))) (step_id step) \<and>
       length (calls (agent_key (agent_type step) (step_id step)) orch) <
         length (calls (agent_key (agent_type step) (step_id step))
           (fst (snd (step_function now step orch state))))) \<or>
      (failed_steps (snd (snd (step_function now step orch state))) =
         failed_steps state @ [step_id step] \<and>
       status (snd (snd (step_function now step orch state))) = WF_FAILED \<and>
       completed_steps (snd (snd (step_function now step orch state))) =
         completed_steps state))"
proof (intro conjI impI)
  assume a: "(key, expected) \<in> set (conditions step) \<and>
    map_of (run_context state) key \<noteq> Some expected"
  then have n: "\<not> check_conditions (conditions step) (run_context state)"
    using check_conditions_unmet [of key expected "conditions step" "run_context state"]
    by simp
  note eq = step_function_skip [OF n, of now orch]
  show "step_function now step orch state =
        (step,
         info ''Step conditions not met, skipping'' (step_id step)
           (info ''Start executing step'' (step_id step) orch),
         state\<lparr>current_step := Some (step_id step),
               completed_steps := completed_steps state @ [step_id step]\<rparr>)"
    by (rule eq)
  show "agents (fst (snd (step_function now step orch state))) = agents orch"
    by (simp add: eq)
  show "run_context (snd (snd (step_function now step orch state))) = run_context state"
    by (simp add: eq)
  show "results (snd (snd (step_function now step orch state))) = results state"
    by (simp add: eq)
  show "completed_steps (snd (snd (step_function now step orch state))) =
        completed_steps state @ [step_id step]"
    by (simp add: eq)
next
  assume "conditions step = []"
  then show "check_conditions (conditions step) (run_context state)" by simp
next
  assume b: "conditions step = [] \<and>
    \<not> isl (fst (get_or_create_agent now (agent_type step) (step_id step)
              (info ''Start executing step'' (step_id step) orch)))"
  then have c: "check_conditions (conditions step) (run_context state)" by simp
  from b have r: "\<not> isl (fst (get_or_create_agent now (agent_type step) (step_id step)
              (info ''Start executing step'' (step_id step) orch)))" by simp
  show "calls (agent_key (agent_type step) (step_id step))
        (fst (snd (attempt now step orch state))) =
      calls (agent_key (agent_type step) (step_id step))
        (snd (get_or_create_agent now (agent_type step) (step_id step)
           (info ''Start executing step'' (step_id step) orch))) @
      [(workflow_id state @ ''_'' @ step_id step,
        prepare_input (input_mapping step) (run_context state))]"
    using c r by (rule attempt_invokes)
  show "take (length (calls (agent_key (agent_type step) (step_id step))
                 (snd (get_or_create_agent now (agent_type step) (step_id step)
                    (info ''Start executing step'' (step_id step) orch)))) + 1)
        (calls (agent_key (agent_type step) (step_id step))
           (fst (snd (step_function now step orch state)))) =
      calls (agent_key (agent_type step) (step_id step))
        (snd (get_or_create_agent now (agent_type step) (step_id step)
           (info ''Start executing step'' (step_id step) orch))) @
      [(workflow_id state @ ''_'' @ step_id step,
        prepare_input (input_mapping step) (run_context state))]"
    using c r by (rule step_function_first_call)
next
  assume "conditions step = []"
  then show "(completed_steps (snd (snd (step_function now step orch state))) =
         completed_steps state @ [step_id step] \<and>
       failed_steps (snd (snd (step_function now step orch state))) = failed_steps state \<and>
       has_key (results (snd (snd (step_function now step orch state)))) (step_id step) \<and>
       length (calls (agent_key (agent_type step) (step_id step)) orch) <
         length (calls (agent_key (agent_type step) (step_id step))
           (fst (snd (step_function now step orch state))))) \<or>
      (failed_steps (snd (snd (step_function now step orch state))) =
         failed_steps state @ [step_id step] \<and>
       status (snd (snd (step_function now step orch state))) = WF_FAILED \<and>
       completed_steps (snd (snd (step_function now step orch state))) =
         completed_steps state)"
    by (rule step_function_runs)
qed

theorem unmet_condition_skips_witness:
  "step_function 2 step_C in_flight in_flight_state =
     (step_C,
      info ''Step conditions not met, skipping'' ''C'' (info ''Start executing step'' ''C'' in_flight),
      in_flight_state\<lparr>current_step := Some ''C'', completed_steps := [''C'']\<rparr>) \<and>
   agents (fst (snd (step_function 2 step_C in_flight in_flight_state))) = agents in_flight \<and>
   run_context (snd (snd (step_function 2 step_C in_flight in_flight_state))) = [(''x'', 3)] \<and>
   results (snd (snd (step_function 2 step_C in_flight in_flight_state))) = [] \<and>
   check_conditions (conditions step_B) (run_context in_flight_state) \<and>
   calls ''echo_B'' (fst (snd (attempt 2 step_B in_flight in_flight_state))) =
     [(''wf_B'', [(''in'', 3)])] \<and>
   take 1 (calls ''echo_B'' (fst (snd (step_function 2 step_B in_flight in_flight_state)))) =
     [(''wf_B'', [(''in'', 3)])] \<and>
   completed_steps (snd (snd (step_function 2 step_B in_flight in_flight_state))) = [''B''] \<and>
   has_key (results (snd (snd (step_function 2 step_B in_flight in_flight_state)))) ''B'' \<and>
   0 < length (calls ''echo_B'' (fst (snd (step_function 2 step_B in_flight in_flight_state))))"
proof -
  have h1: "(''y'', 5) \<in> set (conditions step_C) \<and>
            map_of (run_context in_flight_state) ''y'' \<noteq> Some 5"
    by (simp add: step_C_def in_flight_state_def)
  have h2: "conditions step_B = []"
    by (simp add: step_B_def)
  have h3: "\<not> isl (fst (get_or_create_agent 2 (agent_type step_B) (step_id step_B)
              (info ''Start executing step'' (step_id step_B) in_flight)))"
    by code_simp
  have e: "calls ''echo_B''
             (snd (get_or_create_agent 2 (agent_type step_B) ''B''
                (info ''Start executing step'' ''B'' in_flight))) = []"
    by code_simp
  have e0: "calls ''echo_B'' in_flight = []"
    by code_simp
  have k: "agent_key (agent_type step_B) ''B'' = ''echo_B''"
    by (simp add: agent_key_def step_B_def)
  have s: "step_id step_C = ''C''" "step_id step_B = ''B''" "step_name step_B = ''second''"
    "input_mapping step_B = [(''in'', ''x'')]"
    by (simp_all add: step_C_def step_B_def)
  have st: "run_context in_flight_state = [(''x'', 3)]" "results in_flight_state = []"
    "completed_steps in_flight_state = []" "workflow_id in_flight_state = ''wf''"
    "failed_steps in_flight_state = []"
    by (simp_all add: in_flight_state_def)
  have p: "prepare_input [(''in'', ''x'')] [(''x'', 3::int)] = [(''in'', 3)]"
    by (simp add: prepare_input_def)
  have nf: "status (snd (snd (step_function 2 step_B in_flight in_flight_state))) \<noteq> WF_FAILED"
    by code_simp
  from unmet_condition_skips [of "''y''" 5 step_C in_flight_state 2 in_flight] h1
  have skip: "step_function 2 step_C in_flight in_flight_state =
        (step_C,
         info ''Step conditions not met, skipping'' (step_id step_C)
           (info ''Start executing step'' (step_id step_C) in_flight),
         in_flight_state\<lparr>current_step := Some (step_id step_C),
               completed_steps := completed_steps in_flight_state @ [step_id step_C]\<rparr>) \<and>
      agents (fst (snd (step_function 2 step_C in_flight in_flight_state))) = agents in_flight \<and>
      run_context (snd (snd (step_function 2 step_C in_flight in_flight_state))) =
        run_context in_flight_state \<and>
      results (snd (snd (step_function 2 step_C in_flight in_flight_state))) =
        results in_flight_state"
    by blast
  note inst = unmet_condition_skips [of "''y''" 5 step_B in_flight_state 2 in_flight]
  from inst h2 h3
  have run: "check_conditions (conditions step_B) (run_context in_flight_state) \<and>
      calls (agent_key (agent_type step_B) (step_id step_B))
        (fst (snd (attempt 2 step_B in_flight in_flight_state))) =
      calls (agent_key (agent_type step_B) (step_id step_B))
        (snd (get_or_create_agent 2 (agent_type step_B) (step_id step_B)
           (info ''Start executing step'' (step_id step_B) in_flight))) @
      [(workflow_id in_flight_state @ ''_'' @ step_id step_B,
        prepare_input (input_mapping step_B) (run_context in_flight_state))] \<and>
      take (length (calls (agent_key (agent_type step_B) (step_id step_B))
                 (snd (get_or_create_agent 2 (agent_type step_B) (step_id step_B)
                    (info ''Start executing step'' (step_id step_B) in_flight)))) + 1)
        (calls (agent_key (agent_type step_B) (step_id step_B))
           (fst (snd (step_function 2 step_B in_flight in_flight_state)))) =
      calls (agent_key (agent_type step_B) (step_id step_B))
        (snd (get_or_create_agent 2 (agent_type step_B) (step_id step_B)
           (info ''Start executing step'' (step_id step_B) in_flight))) @
      [(workflow_id in_flight_state @ ''_'' @ step_id step_B,
        prepare_input (input_mapping step_B) (run_context in_flight_state))]"
    by blast
  from inst h2
  have "(completed_steps (snd (snd (step_function 2 step_B in_flight in_flight_state))) =
         completed_steps in_flight_state @ [step_id step_B] \<and>
       failed_steps (snd (snd (step_function 2 step_B in_flight in_flight_state))) =
         failed_steps in_flight_state \<and>
       has_key (results (snd (snd (step_function 2 step_B in_flight in_flight_state))))
         (step_id step_B) \<and>
       length (calls (agent_key (agent_type step_B) (step_id step_B)) in_flight) <
         length (calls (agent_key (agent_type step_B) (step_id step_B))
           (fst (snd (step_function 2 step_B in_flight in_flight_state))))) \<or>
      (failed_steps (snd (snd (step_function 2 step_B in_flight in_flight_state))) =
         failed_steps in_flight_state @ [step_id step_B] \<and>
       status (snd (snd (step_function 2 step_B in_flight in_flight_state))) = WF_FAILED \<and>
       completed_steps (snd (snd (step_function 2 step_B in_flight in_flight_state))) =
         completed_steps in_flight_state)"
    by blast
  with nf have ran: "completed_steps (snd (snd (step_function 2 step_B in_flight in_flight_state))) =
         completed_steps in_flight_state @ [step_id step_B] \<and>
       has_key (results (snd (snd (step_function 2 step_B in_flight in_flight_state))))
         (step_id step_B) \<and>
       length (calls (agent_key (agent_type step_B) (step_id step_B)) in_flight) <
         length (calls (agent_key (agent_type step_B) (step_id step_B))
           (fst (snd (step_function 2 step_B in_flight in_flight_state))))"
    by blast
  from skip have "step_function 2 step_C in_flight in_flight_state =
     (step_C,
      info ''Step conditions not met, skipping'' ''C'' (info ''Start executing step'' ''C'' in_flight),
      in_flight_state\<lparr>current_step := Some ''C'', completed_steps := [''C'']\<rparr>) \<and>
   agents (fst (snd (step_function 2 step_C in_flight in_flight_state))) = agents in_flight \<and>
   run_context (snd (snd (step_function 2 step_C in_flight in_flight_state))) = [(''x'', 3)] \<and>
   results (snd (snd (step_function 2 step_C in_flight in_flight_state))) = []"
    unfolding s st by (simp add: st)
  moreover from run have "check_conditions (conditions step_B) (run_context in_flight_state) \<and>
   calls ''echo_B'' (fst (snd (attempt 2 step_B in_flight in_flight_state))) =
     [(''wf_B'', [(''in'', 3)])] \<and>
   take 1 (calls ''echo_B'' (fst (snd (step_function 2 step_B in_flight in_flight_state)))) =
     [(''wf_B'', [(''in'', 3)])]"
    unfolding s st p by (simp add: k e)
  moreover from ran have
    "completed_steps (snd (snd (step_function 2 step_B in_flight in_flight_state))) = [''B''] \<and>
     has_key (results (snd (snd (step_function 2 step_B in_flight in_flight_state)))) ''B'' \<and>
     0 < length (calls ''echo_B'' (fst (snd (step_function 2 step_B in_flight in_flight_state))))"
    unfolding s st by (simp add: k e0)
  ultimately show ?thesis by blast
qed

section \<open>Steps that fail\<close>

lemma attempt_failing:
  assumes "map_of (agents orch) (agent_key (agent_type step) (step_id step)) = Some a"
    and "process_task (cls a) (invocations a)
           (AgentTask (workflow_id state @ ''_'' @ step_id step) (step_name step)
              (prepare_input (input_mapping step) (run_context state))) = Inl e"
    and "check_conditions (conditions step) (run_context state)"
  shows "attempt now step orch state =
           (Some e,
            (info ''Start executing step'' (step_id step) orch)
              \<lparr>agents := AList.update (agent_key (agent_type step) (step_id step))
                 (a\<lparr>invocations := invocations a @
                    [AgentTask (workflow_id state @ ''_'' @ step_id step) (step_name step)
                       (prepare_input (input_mapping step) (run_context state))]\<rparr>)
                 (agents orch)\<rparr>,
            state\<lparr>current_step := Some (step_id step)\<rparr>)"
  using assms
  by (simp add: attempt_def Let_def get_or_create_agent_def invoke_def info_def)

text \<open>
  A step whose agent is registered, whose condition holds and whose capability raises on
  every call: \<^verbatim>\<open>step_function\<close> calls the capability once and then once more for every
  unit by which the retry counter it finds is below \<^verbatim>\<open>max_retries\<close>, each time with the
  same task identifier and the input built from the context; it leaves the Run State it
  was called with marked failed, with the step among the failed steps and the error
  recorded, and the counter beyond the budget. With the counter at 0 and a budget that is
  not negative these are \<^verbatim>\<open>max_retries + 1\<close> calls.
\<close>

lemma failing_step_attempts:
  "map_of (agents orch) (agent_key (agent_type step) (step_id step)) = Some a \<Longrightarrow>
   (\<And>h t. process_task (cls a) h t = Inl e) \<Longrightarrow>
   check_conditions (conditions step) (run_context state) \<Longrightarrow>
   calls (agent_key (agent_type step) (step_id step))
       (fst (snd (step_function now step orch state))) =
     calls (agent_key (agent_type step) (step_id step)) orch @
       replicate (nat (max_retries step - retry_count step) + 1)
         (workflow_id state @ ''_'' @ step_id step,
          prepare_input (input_mapping step) (run_context state)) \<and>
   status (snd (snd (step_function now step orch state))) = WF_FAILED \<and>
   failed_steps (snd (snd (step_function now step orch state))) =
     failed_steps state @ [step_id step] \<and>
   error (snd (snd (step_function now step orch state))) = Some e \<and>
   retry_count (fst (step_function now step orch state)) =
     max (retry_count step) (max_retries step) + 1"
proof (induction now step orch state arbitrary: a rule: step_function.induct)
  case (1 now step orch state)
  let ?k = "agent_key (agent_type step) (step_id step)"
  let ?t = "AgentTask (workflow_id state @ ''_'' @ step_id step) (step_name step)
              (prepare_input (input_mapping step) (run_context state))"
  let ?a1 = "a\<lparr>invocations := invocations a @ [?t]\<rparr>"
  let ?o1 = "(info ''Start executing step'' (step_id step) orch)
               \<lparr>agents := AList.update ?k ?a1 (agents orch)\<rparr>"
  let ?s1 = "state\<lparr>current_step := Some (step_id step)\<rparr>"
  let ?step1 = "step\<lparr>retry_count := retry_count step + 1\<rparr>"
  have att: "attempt now step orch state = (Some e, ?o1, ?s1)"
    using "1.prems"(1) "1.prems"(2) "1.prems"(3) by (rule attempt_failing)
  have c1: "calls ?k ?o1 = calls ?k orch @ [(workflow_id state @ ''_'' @ step_id step,
              prepare_input (input_mapping step) (run_context state))]"
    using "1.prems"(1)
    by (simp add: calls_def get_agent_def update_conv' info_def AgentTask_def)
  show ?case
  proof (cases "retry_count ?step1 \<le> max_retries ?step1")
    case True
    let ?o3 = "info ''Retrying step'' (step_id step)
                 (log_error ''Step execution failed'' (step_id step) ?o1)"
    have eq: "step_function now step orch state = step_function now ?step1 ?o3 ?s1"
      using att True by (subst step_function.simps) (simp add: Let_def)
    have m: "map_of (agents ?o3) (agent_key (agent_type ?step1) (step_id ?step1)) = Some ?a1"
      by (simp add: info_def log_error_def update_conv')
    have p: "\<And>h t. process_task (cls ?a1) h t = Inl e"
      using "1.prems"(2) by simp
    have c: "check_conditions (conditions ?step1) (run_context ?s1)"
      using "1.prems"(3) by simp
    note ih = "1.IH" [OF att [symmetric] refl refl refl refl True m p c]
    have n: "nat (max_retries step - retry_count step) =
               Suc (nat (max_retries step - (retry_count step + 1)))"
      using True by simp
    have mx: "max (retry_count step + 1) (max_retries step) = max (retry_count step) (max_retries step)"
      using True by simp
    show ?thesis
      unfolding eq using ih c1 by (simp add: n mx)
  next
    case False
    have eq: "step_function now step orch state =
        (?step1, log_error ''Step execution failed'' (step_id step) ?o1,
         ?s1\<lparr>failed_steps := failed_steps ?s1 @ [step_id ?step1], status := WF_FAILED,
               error := Some e\<rparr>)"
      using att False by (subst step_function.simps) (simp add: Let_def)
    have n: "nat (max_retries step - retry_count step) = 0"
      using False by simp
    have mx: "max (retry_count step) (max_retries step) = retry_count step"
      using False by simp
    show ?thesis
      unfolding eq using c1 by (simp add: n mx)
  qed
qed

text \<open>
  When the awaited run returns, \<^verbatim>\<open>execute_workflow\<close> marks the stored Run State failed
  with the \<open>AttributeError\<close>, whatever the closures wrote to the Run State they were
  called with.
\<close>

lemma execute_end_returned:
  assumes "map_of (workflow_states orch) wid = Some state"
  shows "fst (execute_end t_end wid (Inr vals) orch) =
           Inr (state\<lparr>status := WF_FAILED, error := Some (AttributeError ''dict'' ''status''),
                      completed_at := Some t_end\<rparr>)"
  using assms by (simp add: execute_end_def execute_failed_def Let_def)

text \<open>
  C1, at the workflow \<open>A \<rightarrow> B \<rightarrow> END\<close> with input \<^verbatim>\<open>{x: 3}\<close>, where the capability of
  \<open>A\<close> raises on every call and \<^verbatim>\<open>max_retries\<close> of \<open>A\<close> is 2. The capability of \<open>A\<close>
  is called three times; then the run goes on to \<open>B\<close>, whose capability is called once.
  The Run State that \<^verbatim>\<open>execute_workflow\<close> returns is marked failed, but by the
  \<open>AttributeError\<close> and not by the step: its list of failed steps is empty and its
  error is not the one the capability raised.
\<close>

theorem failed_step_is_followed:
  "calls ''failing_A'' (snd first_run) =
     [(''wf_A'', [(''in'', 3)]), (''wf_A'', [(''in'', 3)]), (''wf_A'', [(''in'', 3)])] \<and>
   calls ''echo_B'' (snd first_run) = [(''wf_B'', [(''in'', 3)])] \<and>
   run_summary first_run = Some (WF_FAILED, [], [], Some (AttributeError ''dict'' ''status''))"
  by code_simp

text \<open>
  C2, at the same workflow executed twice. In the first run the capability of \<open>A\<close> is
  called \<^verbatim>\<open>max_retries + 1 = 3\<close> times, each time with the input \<^verbatim>\<open>{in: 3}\<close> built from
  the context, and the retry counter of \<open>A\<close> is left at 3. Nothing puts the counter back:
  in the second run the capability of \<open>A\<close> is called once, and the counter goes to 4.
\<close>

theorem retry_budget_not_restored:
  "retry_counters ''wf'' demo = [(''A'', 0, 2), (''B'', 0, 3)] \<and>
   calls ''failing_A'' (snd first_run) =
     [(''wf_A'', [(''in'', 3)]), (''wf_A'', [(''in'', 3)]), (''wf_A'', [(''in'', 3)])] \<and>
   retry_counters ''wf'' (snd first_run) = [(''A'', 3, 2), (''B'', 0, 3)] \<and>
   calls ''failing_A'' (snd second_run) =
     calls ''failing_A'' (snd first_run) @ [(''wf_A'', [(''in'', 3)])] \<and>
   retry_counters ''wf'' (snd second_run) = [(''A'', 4, 2), (''B'', 0, 3)]"
  by code_simp

end
